theory Spec2Isabelle
  imports Main "HOL-Library.Word" "HOL-Library.Sublist" "HOL-Library.Multiset" "HOL-Library.AList"
begin

unbundle bit_operations_syntax

section \<open>Shared data model\<close>

text \<open>
  Go's \<open>byte\<close> is an 8-bit word; \<open>net.IP\<close> and \<open>net.IPMask\<close> are byte slices
  (a nil slice is the empty list). An \<open>error\<close> value records where it was made:
  \<open>errors.New\<close>, \<open>fmt.Errorf\<close> (with the formatted message) or a library outside
  the repository. A nil error is \<open>None\<close> of \<open>error option\<close>.
\<close>

type_synonym byte = "8 word"
type_synonym IP = "byte list"

datatype error = errors_New string | fmt_Errorf string | lib_error string

fun Error_of :: "error \<Rightarrow> string" where
  "Error_of (errors_New m) = m"
| "Error_of (fmt_Errorf m) = m"
| "Error_of (lib_error m) = m"

datatype panic = IndexOutOfRange | SliceBoundsOutOfRange | NilDereference | MakeChanSizeOutOfRange

datatype 'a result = Ok 'a | Err error | Panic panic

definition newline :: char where
  "newline = CHR 0x0A"

text \<open>Decimal rendering, as \<open>%d\<close> and \<open>big.Int.String\<close> print an integer.\<close>

fun show_nat :: "nat \<Rightarrow> string" where
  "show_nat n =
     (if n < 10 then [''0123456789'' ! n]
      else show_nat (n div 10) @ [''0123456789'' ! (n mod 10)])"

declare show_nat.simps [simp del]

definition show_int :: "int \<Rightarrow> string" where
  "show_int i = (if i < 0 then CHR ''-'' # show_nat (nat (- i)) else show_nat (nat i))"


section \<open>Address ranges (internal/helper/ip.go)\<close>

subsection \<open>The operations of Go's net package that ip.go calls\<close>

definition v4InV6Prefix :: IP where
  "v4InV6Prefix = [0, 0, 0, 0, 0, 0, 0, 0, 0, 0, 0xff, 0xff]"

text \<open>\<open>IP.To4\<close>: the 4-byte form of a 4-byte or IPv4-mapped 16-byte address, else nil.\<close>

definition To4 :: "IP \<Rightarrow> IP option" where
  "To4 ip = (if length ip = 4 then Some ip
             else if length ip = 16 \<and> take 12 ip = v4InV6Prefix then Some (drop 12 ip)
             else None)"

text \<open>
  \<open>CIDRMask(ones, bits)\<close> for \<open>bits\<close> 32 or 128 and \<open>ones \<le> bits\<close>; the second argument
  of the loop is the number of bytes still to fill.
\<close>

fun CIDRMask_loop :: "nat \<Rightarrow> nat \<Rightarrow> IP" where
  "CIDRMask_loop n 0 = []"
| "CIDRMask_loop n (Suc l) =
     (if n \<ge> 8 then 0xff # CIDRMask_loop (n - 8) l
      else NOT (drop_bit n 0xff) # CIDRMask_loop 0 l)"

definition CIDRMask :: "nat \<Rightarrow> nat \<Rightarrow> IP" where
  "CIDRMask ones bits = CIDRMask_loop ones (bits div 8)"

text \<open>\<open>IP.Mask\<close>; the result nil (a length mismatch) is the empty list.\<close>

definition allFF :: "IP \<Rightarrow> bool" where
  "allFF b = list_all (\<lambda>c. c = 0xff) b"

definition Mask :: "IP \<Rightarrow> IP \<Rightarrow> IP" where
  "Mask ip ipmask =
     (let ipmask = (if length ipmask = 16 \<and> length ip = 4 \<and> allFF (take 12 ipmask)
                    then drop 12 ipmask else ipmask);
          ip = (if length ipmask = 4 \<and> length ip = 16 \<and> take 12 ip = v4InV6Prefix
                then drop 12 ip else ip)
      in if length ip \<noteq> length ipmask then []
         else map (\<lambda>(a, m). a AND m) (zip ip ipmask))"

text \<open>
  A parsed address of \<open>net/netip\<close>: an IPv4 address of 4 bytes or an IPv6 address of
  16 bytes (an IPv4-mapped literal such as \<open>::ffff:192.168.1.0\<close> is an IPv6 address).
\<close>

datatype Addr = Addr4 IP | Addr6 IP

fun BitLen :: "Addr \<Rightarrow> nat" where
  "BitLen (Addr4 b) = 32"
| "BitLen (Addr6 b) = 128"

fun As16 :: "Addr \<Rightarrow> IP" where
  "As16 (Addr4 b) = v4InV6Prefix @ b"
| "As16 (Addr6 b) = b"

fun wf_Addr :: "Addr \<Rightarrow> bool" where
  "wf_Addr (Addr4 b) = (length b = 4)"
| "wf_Addr (Addr6 b) = (length b = 16)"

record IPNet =
  IPNet_IP :: IP
  IPNet_Mask :: IP

text \<open>
  \<open>net.ParseCIDR\<close> after the scan of its text: the argument is what
  \<open>netip.ParseAddr\<close> and \<open>dtoi\<close> read from the two sides of the slash, \<open>None\<close>
  when either refuses the text.
\<close>

definition ParseCIDR :: "(Addr \<times> nat) option \<Rightarrow> error + (IP \<times> IPNet)" where
  "ParseCIDR cidr =
     (case cidr of
        None \<Rightarrow> Inl (lib_error ''invalid CIDR address'')
      | Some (ipAddr, n) \<Rightarrow>
          if n > BitLen ipAddr then Inl (lib_error ''invalid CIDR address'')
          else let m = CIDRMask n (BitLen ipAddr); addr16 = As16 ipAddr
               in Inr (addr16, \<lparr>IPNet_IP = Mask addr16 m, IPNet_Mask = m\<rparr>))"

subsection \<open>ip.go\<close>

record IPRange =
  Start :: IP
  End :: IP

text \<open>
  The loop of parseSubnet, \<open>end[i] |= ^ipNet.Mask[i]\<close> for \<open>i\<close> below
  \<open>len(ipNet.Mask)\<close>. An index outside \<open>end\<close> panics.
\<close>

function parseSubnet_loop :: "IP \<Rightarrow> IP \<Rightarrow> nat \<Rightarrow> panic + IP" where
  "parseSubnet_loop end_ip ipmask i =
     (if i < length ipmask then
        (if i < length end_ip
         then parseSubnet_loop (end_ip[i := end_ip ! i OR NOT (ipmask ! i)]) ipmask (Suc i)
         else Inl IndexOutOfRange)
      else Inr end_ip)"
  by pat_completeness auto
termination
  by (relation "measure (\<lambda>(end_ip, ipmask, i). length ipmask - i)") auto

declare parseSubnet_loop.simps [simp del]

definition parseSubnet :: "(Addr \<times> nat) option \<Rightarrow> IPRange result" where
  "parseSubnet cidr =
     (case ParseCIDR cidr of
        Inl err \<Rightarrow> Err err
      | Inr (ip, ipNet) \<Rightarrow>
          let ip = (case To4 ip of Some ip4 \<Rightarrow> ip4 | None \<Rightarrow> ip);
              start = Mask ip (IPNet_Mask ipNet);
              end_ip = start
          in case parseSubnet_loop end_ip (IPNet_Mask ipNet) 0 of
               Inl p \<Rightarrow> Panic p
             | Inr end_ip \<Rightarrow> Ok \<lparr>Start = start, End = end_ip\<rparr>)"

text \<open>
  NextIP: the loop runs \<open>i\<close> from \<open>len(next) - 1\<close> down to 0; the second argument
  of the model is \<open>i + 1\<close>. \<open>next[i]++\<close> wraps at 256.
\<close>

fun NextIP_loop :: "IP \<Rightarrow> nat \<Rightarrow> IP" where
  "NextIP_loop next 0 = next"
| "NextIP_loop next (Suc i) =
     (let next' = next[i := next ! i + 1]
      in if next' ! i > 0 then next' else NextIP_loop next' i)"

definition NextIP :: "IP \<Rightarrow> IP" where
  "NextIP ip = NextIP_loop ip (length ip)"

function CompareIPs_loop :: "IP \<Rightarrow> IP \<Rightarrow> nat \<Rightarrow> panic + int" where
  "CompareIPs_loop ip1 ip2 i =
     (if i < length ip1 then
        (if i < length ip2 then
           (if ip1 ! i < ip2 ! i then Inr (- 1)
            else if ip1 ! i > ip2 ! i then Inr 1
            else CompareIPs_loop ip1 ip2 (Suc i))
         else Inl IndexOutOfRange)
      else Inr 0)"
  by pat_completeness auto
termination
  by (relation "measure (\<lambda>(ip1, ip2, i). length ip1 - i)") auto

declare CompareIPs_loop.simps [simp del]

definition CompareIPs :: "IP \<Rightarrow> IP \<Rightarrow> panic + int" where
  "CompareIPs ip1 ip2 =
     (if length ip1 \<noteq> length ip2 then
        (case (To4 ip1, To4 ip2) of
           (Some a, Some b) \<Rightarrow> CompareIPs_loop a b 0
         | _ \<Rightarrow> Inr 0)
      else CompareIPs_loop ip1 ip2 0)"

text \<open>
  GetIPsInRange: the loop has no bound of its own, so a run that never leaves it is the
  value \<open>None\<close>.
\<close>

partial_function (option) GetIPsInRange_loop :: "IP \<Rightarrow> IP \<Rightarrow> IP list \<Rightarrow> (panic + IP list) option" where
  "GetIPsInRange_loop ip end_ip ips =
     (case CompareIPs ip end_ip of
        Inl p \<Rightarrow> Some (Inl p)
      | Inr c \<Rightarrow> if c \<le> 0 then GetIPsInRange_loop (NextIP ip) end_ip (ips @ [ip])
                 else Some (Inr ips))"

definition GetIPsInRange :: "IPRange \<Rightarrow> (panic + IP list) option" where
  "GetIPsInRange ipRange = GetIPsInRange_loop (Start ipRange) (End ipRange) []"

text \<open>The value of an address read as a big-endian number, to state the results.\<close>

definition ip_val :: "IP \<Rightarrow> nat" where
  "ip_val ip = foldl (\<lambda>acc b. acc * 256 + unat b) 0 ip"

section \<open>Batches (pkg/scraper/utils.go, ChunkSlice)\<close>

text \<open>
  Go's \<open>int\<close> is 64 bits wide: \<open>i + chunkSize\<close> and \<open>i += chunkSize\<close> wrap. A slice
  expression \<open>slice[i:end]\<close> panics unless \<open>0 \<le> i \<le> end \<le> cap(slice)\<close>; \<open>end\<close> is
  at most \<open>len(slice)\<close> here. The loop has no bound of its own (it is entered only with a
  positive chunk size), so the model is a partial function. The slice is \<open>xs\<close>.
\<close>

definition wrap64 :: "int \<Rightarrow> int" where
  "wrap64 x = (x + 2 ^ 63) mod 2 ^ 64 - 2 ^ 63"

partial_function (option) ChunkSlice_loop :: "'a list \<Rightarrow> int \<Rightarrow> int \<Rightarrow> 'a list list \<Rightarrow> (panic + 'a list list) option" where
  "ChunkSlice_loop xs chunkSize i chunks =
     (if i < int (length xs) then
        (let end0 = wrap64 (i + chunkSize);
             end1 = (if end0 > int (length xs) then int (length xs) else end0)
         in if 0 \<le> i \<and> i \<le> end1
            then ChunkSlice_loop xs chunkSize (wrap64 (i + chunkSize))
                   (chunks @ [take (nat (end1 - i)) (drop (nat i) xs)])
            else Some (Inl SliceBoundsOutOfRange))
      else Some (Inr chunks))"

definition ChunkSlice :: "'a list \<Rightarrow> int \<Rightarrow> (panic + 'a list list) option" where
  "ChunkSlice xs chunkSize =
     (if chunkSize \<le> 0 then Some (Inr []) else ChunkSlice_loop xs chunkSize 0 [])"

section \<open>The multi-target error (pkg/scraper/errorHandler.go)\<close>

text \<open>
  \<open>MultiError.Errors\<close> is a Go map from target to error. It is kept as a list of
  entries with distinct keys; Go fixes no iteration order, so a \<open>range\<close> loop may visit
  the entries in any order, and the rendering functions take the entries in the order
  in which the loop visits them. \<open>Errors[k] = e\<close> is \<open>AList.update\<close>.
\<close>

type_synonym Errors_map = "(string \<times> error option) list"

text \<open>
  errorHandler.go: \<open>fmt.Sprintf("Domain: %s, Error: %s\n", domain, err.Error())\<close>;
  the method call on a nil error panics.
\<close>

fun MultiError_Error_loop :: "Errors_map \<Rightarrow> string \<Rightarrow> panic + string" where
  "MultiError_Error_loop [] errMsg = Inr errMsg"
| "MultiError_Error_loop ((domain, err) # rest) errMsg =
     (case err of
        None \<Rightarrow> Inl NilDereference
      | Some e \<Rightarrow> MultiError_Error_loop rest
          (errMsg @ ''Domain: '' @ domain @ '', Error: '' @ Error_of e @ [newline]))"

definition MultiError_Error :: "Errors_map \<Rightarrow> panic + string" where
  "MultiError_Error visited = MultiError_Error_loop visited (''Multiple errors occurred:'' @ [newline])"

text \<open>
  The second version of the file (unnamed/part_008): two lines per entry, and
  \<open><nil>\<close> for a nil error.
\<close>

fun MultiError_Error_part_008_loop :: "Errors_map \<Rightarrow> string \<Rightarrow> string" where
  "MultiError_Error_part_008_loop [] errMsg = errMsg"
| "MultiError_Error_part_008_loop ((domain, err) # rest) errMsg =
     (case err of
        Some e \<Rightarrow> MultiError_Error_part_008_loop rest
          (errMsg @ ''Domain: '' @ domain @ [newline] @ ''Error: '' @ Error_of e @ [newline])
      | None \<Rightarrow> MultiError_Error_part_008_loop rest
          (errMsg @ ''Domain: '' @ domain @ [newline] @ ''Error: <nil>'' @ [newline]))"

definition MultiError_Error_part_008 :: "Errors_map \<Rightarrow> string" where
  "MultiError_Error_part_008 visited =
     MultiError_Error_part_008_loop visited (''Multiple errors occurred:'' @ [newline])"

section \<open>Certificates and probes (pkg/scraper)\<close>

text \<open>
  The fields of \<open>x509.Certificate\<close> that the repository reads. Instants are integers
  (one clock, nanoseconds); the issuer name is kept as \<open>pkix.Name.String\<close> renders it.
\<close>

record Certificate =
  x509_SerialNumber :: int
  x509_NotBefore :: int
  x509_NotAfter :: int
  x509_Issuer :: string
  Subject_CommonName :: string
  DNSNames :: "string list"
  CRLDistributionPoints :: "string list"
  x509_OCSPServer :: "string list"

record CertDetails =
  Domain_str :: string
  Serial :: string
  NotBefore :: string
  NotAfter :: string
  Issuer :: string
  CRL :: "string list"
  OCSPServer :: "string list"
  CertChain :: "Certificate list"
  Valid :: bool
  ValidationErrs :: "string list"

text \<open>The zero value \<open>&CertDetails{}\<close>.\<close>

definition CertDetails_zero :: CertDetails where
  "CertDetails_zero = \<lparr>Domain_str = [], Serial = [], NotBefore = [], NotAfter = [], Issuer = [],
     CRL = [], OCSPServer = [], CertChain = [], Valid = False, ValidationErrs = []\<rparr>"



text \<open>
  What \<open>Certificate.Verify\<close> returns: nil, or an error of one of the types the code
  switches on, each with its \<open>Error()\<close> text; \<open>CertificateInvalidError\<close> carries its
  reason code (\<open>NotAuthorizedToSign\<close> is 0, \<open>Expired\<close> 1,
  \<open>CANotAuthorizedForThisName\<close> 2, \<open>TooManyIntermediates\<close> 3, \<open>IncompatibleUsage\<close> 4).
\<close>

datatype verify_error =
    CertificateInvalidError int string
  | HostnameError string
  | UnknownAuthorityError string
  | OtherVerifyError string

record VerifyOptions =
  DNSName :: string
  Intermediates :: "Certificate list"
  Roots :: "Certificate list"

text \<open>
  A connection is a TLS connection with its peer certificates, or a value of another
  type (with the name \<open>%T\<close> prints). A reverse lookup either answers or loses the race
  against the five-second timer.
\<close>

datatype conn = TLSConn "Certificate list" | OtherConn string

datatype lookup = LookupAnswered "string list" "error option" | LookupTimedOut

type_synonym Dialer = "string \<Rightarrow> string \<Rightarrow> error + conn"

text \<open>
  Everything a probe reads from outside the program: the clock, the system trust store,
  the verifier of crypto/x509, the network behind \<open>tls.Dialer\<close>, the resolver, and the
  renderings of library values.
\<close>

record world =
  time_Now :: int
  time_String :: "int \<Rightarrow> string"
  IP_String :: "IP \<Rightarrow> string"
  SystemCertPool :: "error + Certificate list"
  Verify :: "Certificate \<Rightarrow> VerifyOptions \<Rightarrow> verify_error option"
  tls_Dial :: Dialer
  LookupAddr :: "string \<Rightarrow> lookup"

text \<open>The inner \<open>switch e.Reason\<close>, the same in the three places it is written.\<close>

definition invalid_reason :: "int \<Rightarrow> string" where
  "invalid_reason r =
     (if r = 1 then ''Certificate has expired or is not yet valid''
      else if r = 0 then ''Certificate is not authorized to sign other certificates''
      else if r = 4 then ''Certificate usage is incompatible with the intended usage''
      else if r = 2 then ''CA is not authorized for this name''
      else if r = 3 then ''Too many intermediate certificates''
      else ''Certificate is invalid (reason code: '' @ show_int r @ '')'')"

fun expiry_checks :: "int \<Rightarrow> Certificate \<Rightarrow> CertDetails \<Rightarrow> CertDetails" where
  "expiry_checks now cert cd =
     (let cd = (if now < x509_NotBefore cert
                then cd\<lparr>Valid := False,
                        ValidationErrs := ValidationErrs cd @ [''Certificate is not yet valid'']\<rparr>
                else cd);
          cd = (if now > x509_NotAfter cert
                then cd\<lparr>Valid := False,
                        ValidationErrs := ValidationErrs cd @ [''Certificate has expired'']\<rparr>
                else cd)
      in cd)"

text \<open>fetchFromDomainWithDialer (the version that validates); the receiver is \<open>cd\<close>.\<close>

definition fetchFromDomainWithDialer ::
  "world \<Rightarrow> CertDetails \<Rightarrow> string \<Rightarrow> Dialer \<Rightarrow> CertDetails \<times> error option" where
  "fetchFromDomainWithDialer w cd domain dialer =
     (case dialer ''tcp'' (domain @ '':443'') of
        Inl err \<Rightarrow> (cd, Some err)
      | Inr (OtherConn T) \<Rightarrow>
          (cd, Some (fmt_Errorf (''expected a ConnectionStateGetter, got '' @ T)))
      | Inr (TLSConn certs) \<Rightarrow>
          let cd = cd\<lparr>CertChain := certs\<rparr>
          in if length certs = 0
             then (cd, Some (fmt_Errorf (''no certificates found for domain '' @ domain)))
             else
               let cert = certs ! 0;
                   cd = cd\<lparr>Domain_str := domain,
                           Serial := show_int (x509_SerialNumber cert),
                           NotBefore := time_String w (x509_NotBefore cert),
                           NotAfter := time_String w (x509_NotAfter cert),
                           Issuer := x509_Issuer cert,
                           CRL := CRLDistributionPoints cert,
                           OCSPServer := x509_OCSPServer cert,
                           Valid := True,
                           ValidationErrs := []\<rparr>;
                   roots = (case SystemCertPool w of Inl err \<Rightarrow> [] | Inr pool \<Rightarrow> pool);
                   intermediates = drop 1 certs;
                   opts = \<lparr>DNSName = domain, Intermediates = intermediates, Roots = roots\<rparr>;
                   cd = (case Verify w cert opts of
                           None \<Rightarrow> cd
                         | Some e \<Rightarrow>
                             cd\<lparr>Valid := False,
                                ValidationErrs := ValidationErrs cd @
                                  [case e of
                                     CertificateInvalidError r m \<Rightarrow> invalid_reason r
                                   | HostnameError m \<Rightarrow>
                                       ''Certificate is not valid for domain: '' @ domain
                                   | UnknownAuthorityError m \<Rightarrow>
                                       ''Certificate signed by unknown authority (possibly self-signed)''
                                   | OtherVerifyError m \<Rightarrow>
                                       ''Certificate validation error: '' @ m]\<rparr>);
                   cd = expiry_checks (time_Now w) cert cd
               in (cd, None))"

definition fetchFromDomain :: "world \<Rightarrow> CertDetails \<Rightarrow> string \<Rightarrow> CertDetails \<times> error option" where
  "fetchFromDomain w cd domain = fetchFromDomainWithDialer w cd domain (tls_Dial w)"

text \<open>isHostnameInCert, with the \<open>range cert.DNSNames\<close> loop returning at the first equal name.\<close>

fun isHostnameInCert_loop :: "string list \<Rightarrow> string \<Rightarrow> bool" where
  "isHostnameInCert_loop [] hostname = False"
| "isHostnameInCert_loop (san # sans) hostname =
     (if san = hostname then True else isHostnameInCert_loop sans hostname)"

definition isHostnameInCert :: "Certificate \<Rightarrow> string \<Rightarrow> bool" where
  "isHostnameInCert cert hostname =
     (if Subject_CommonName cert = hostname then True
      else isHostnameInCert_loop (DNSNames cert) hostname)"




section \<open>The concurrent scan (pkg/scraper, ScrapeTLS)\<close>

text \<open>
  ScrapeTLS starts one goroutine per website. The goroutines interleave, so the model is
  a step relation on the state of the scan. The \<open>k\<close>-th goroutine probes its site in
  the world \<open>env k\<close>: what the clock and the network answer to that goroutine. A goroutine
  waits for a token (\<open>sem <- struct{}{}\<close>, possible while fewer than \<open>concurrency\<close>
  tokens are held), runs fetchFromDomain and gives the token back (\<open><-sem\<close>), then sends
  its record to \<open>results\<close> or its one-entry map to \<open>errorChan\<close>. Both channels have
  room for every website, so a send never waits. The Prometheus counter and timer, which
  the result does not depend on, are left out.
\<close>

record sched =
  waiting :: "(nat \<times> string) list"
  running :: "(nat \<times> string) list"
  released :: "(string \<times> CertDetails \<times> error option) list"
  results :: "CertDetails list"
  errorChan :: "(string \<times> error) list"

inductive sched_step :: "(nat \<Rightarrow> world) \<Rightarrow> int \<Rightarrow> sched \<Rightarrow> sched \<Rightarrow> bool"
  for env :: "nat \<Rightarrow> world" and concurrency :: int where
  acquire:
    "waiting s = xs @ t # ys \<Longrightarrow> int (length (running s)) < concurrency \<Longrightarrow>
     sched_step env concurrency s (s\<lparr>waiting := xs @ ys, running := t # running s\<rparr>)"
| release:
    "running s = xs @ (k, site) # ys \<Longrightarrow>
     fetchFromDomain (env k) CertDetails_zero site = (certInfo, err) \<Longrightarrow>
     sched_step env concurrency s
       (s\<lparr>running := xs @ ys, released := released s @ [(site, certInfo, err)]\<rparr>)"
| send_error:
    "released s = xs @ (site, certInfo, Some e) # ys \<Longrightarrow>
     sched_step env concurrency s
       (s\<lparr>released := xs @ ys, errorChan := errorChan s @ [(site, e)]\<rparr>)"
| send_result:
    "released s = xs @ (site, certInfo, None) # ys \<Longrightarrow>
     sched_step env concurrency s
       (s\<lparr>released := xs @ ys, results := results s @ [certInfo]\<rparr>)"

definition sched_init :: "string list \<Rightarrow> sched" where
  "sched_init websites =
     \<lparr>waiting = enumerate 0 websites, running = [], released = [], results = [], errorChan = []\<rparr>"

text \<open>\<open>wg.Wait()\<close> returns, and the channels are closed, when every goroutine is done.\<close>

definition sched_done :: "sched \<Rightarrow> bool" where
  "sched_done s \<longleftrightarrow> waiting s = [] \<and> running s = [] \<and> released s = []"

text \<open>The two \<open>range\<close> loops over the closed channels, and the return.\<close>

definition collect_errors :: "(string \<times> error) list \<Rightarrow> Errors_map" where
  "collect_errors ch = foldl (\<lambda>m (domain, e). AList.update domain (Some e) m) [] ch"

definition ScrapeTLS_return :: "sched \<Rightarrow> CertDetails list \<times> Errors_map option" where
  "ScrapeTLS_return s =
     (let details = results s; multiError = collect_errors (errorChan s)
      in if length multiError > 0 then (details, Some multiError) else (details, None))"

text \<open>
  The outcomes of a call: \<open>make(chan struct{}, concurrency)\<close> panics on a negative
  size; otherwise the call returns from a state in which every goroutine is done.
\<close>

inductive ScrapeTLS ::
  "(nat \<Rightarrow> world) \<Rightarrow> string list \<Rightarrow> int \<Rightarrow> (CertDetails list \<times> Errors_map option) result \<Rightarrow> bool"
  for env :: "nat \<Rightarrow> world" and websites :: "string list" and concurrency :: int where
  ScrapeTLS_panics:
    "concurrency < 0 \<Longrightarrow> ScrapeTLS env websites concurrency (Panic MakeChanSizeOutOfRange)"
| ScrapeTLS_returns:
    "0 \<le> concurrency \<Longrightarrow> rtranclp (sched_step env concurrency) (sched_init websites) s \<Longrightarrow>
     sched_done s \<Longrightarrow> ScrapeTLS env websites concurrency (Ok (ScrapeTLS_return s))"

section \<open>The OCSP status check (package ocsp)\<close>

record ocsp_Response =
  Status :: int
  resp_Certificate :: "Certificate option"

definition ocsp_Good :: int where
  "ocsp_Good = 0"

record OCSPChecker =
  checker_Certificate :: Certificate
  checker_Issuer :: Certificate

record http_Response =
  Body :: "error + byte list"

text \<open>
  The library calls of GetOCSPResp: \<open>ocsp.CreateRequest\<close>, \<open>http.Post\<close> (url, content
  type, body) and \<open>ocsp.ParseResponse\<close>; \<open>Body\<close> of a response is what \<open>io.ReadAll\<close>
  reads from it. Beside its result, the model returns the URLs posted to, in order.
\<close>

record ocsp_world =
  CreateRequest :: "Certificate \<Rightarrow> Certificate \<Rightarrow> error + byte list"
  http_Post :: "string \<Rightarrow> string \<Rightarrow> byte list \<Rightarrow> error + http_Response"
  ParseResponse :: "byte list \<Rightarrow> Certificate \<Rightarrow> error + ocsp_Response"

definition GetOCSPResp :: "ocsp_world \<Rightarrow> OCSPChecker \<Rightarrow> (error + ocsp_Response) \<times> string list" where
  "GetOCSPResp w chk =
     (if length (x509_OCSPServer (checker_Certificate chk)) = 0
      then (Inl (errors_New ''no OCSP server specified in cert''), [])
      else
        case CreateRequest w (checker_Certificate chk) (checker_Issuer chk) of
          Inl err \<Rightarrow> (Inl err, [])
        | Inr ocspReq \<Rightarrow>
            let url = x509_OCSPServer (checker_Certificate chk) ! 0; posted = [url]
            in case http_Post w url ''application/ocsp-request'' ocspReq of
                 Inl err \<Rightarrow> (Inl err, posted)
               | Inr httpResp \<Rightarrow>
                   (case Body httpResp of
                      Inl err \<Rightarrow> (Inl err, posted)
                    | Inr ocspResp \<Rightarrow>
                        (case ParseResponse w ocspResp (checker_Issuer chk) of
                           Inl err \<Rightarrow> (Inl err, posted)
                         | Inr resp \<Rightarrow>
                             (case resp_Certificate resp of
                                None \<Rightarrow> (Inr resp, posted)
                              | Some c \<Rightarrow>
                                  (case ParseResponse w ocspResp c of
                                     Inl err \<Rightarrow> (Inl err, posted)
                                   | Inr resp2 \<Rightarrow> (Inr resp2, posted))))))"

definition CheckOCSPStatus :: "ocsp_world \<Rightarrow> OCSPChecker \<Rightarrow> error option \<times> string list" where
  "CheckOCSPStatus w chk =
     (case GetOCSPResp w chk of
        (Inl err, posted) \<Rightarrow> (Some err, posted)
      | (Inr ocspResp, posted) \<Rightarrow>
          if Status ocspResp \<noteq> ocsp_Good
          then (Some (errors_New ''invalid OCSP status''), posted)
          else (None, posted))"

section \<open>Notions used to state the results, and example values\<close>

text \<open>
  The outcome of a goroutine's probe in ScrapeTLS (the site, the record the probe filled
  and the error it returned), and the outcomes of all probes in the order of the websites.
\<close>

definition probe :: "(nat \<Rightarrow> world) \<Rightarrow> nat \<times> string \<Rightarrow> string \<times> CertDetails \<times> error option" where
  "probe env t = (snd t, fetchFromDomain (env (fst t)) CertDetails_zero (snd t))"

definition probe_results :: "(nat \<Rightarrow> world) \<Rightarrow> string list \<Rightarrow> (string \<times> CertDetails \<times> error option) list" where
  "probe_results env websites = map (probe env) (enumerate 0 websites)"

text \<open>
  For the invariant of the scan: the outcomes still on their way in a state, and the
  records and the failures among a collection of outcomes.
\<close>

definition pending :: "(nat \<Rightarrow> world) \<Rightarrow> sched \<Rightarrow> (string \<times> CertDetails \<times> error option) multiset" where
  "pending env s =
     mset (map (probe env) (waiting s)) + mset (map (probe env) (running s)) + mset (released s)"

definition successes :: "(string \<times> CertDetails \<times> error option) multiset \<Rightarrow> CertDetails multiset" where
  "successes M = image_mset (\<lambda>x. fst (snd x)) (filter_mset (\<lambda>x. snd (snd x) = None) M)"

definition failures :: "(string \<times> CertDetails \<times> error option) multiset \<Rightarrow> (string \<times> error) multiset" where
  "failures M = image_mset (\<lambda>x. (fst x, the (snd (snd x)))) (filter_mset (\<lambda>x. snd (snd x) \<noteq> None) M)"

definition example_cert :: Certificate where
  "example_cert = \<lparr>x509_SerialNumber = 1234567890, x509_NotBefore = 100, x509_NotAfter = 200,
     x509_Issuer = ''CN=Test CA'', Subject_CommonName = ''example.com'',
     DNSNames = [''www.example.com'', ''*.example.org''],
     CRLDistributionPoints = [], x509_OCSPServer = [''http://ocsp.example.com'']\<rparr>"

definition example_dialer :: Dialer where
  "example_dialer network address =
     (if address = ''example.com:443'' \<or> address = ''192.0.2.1:443''
      then Inr (TLSConn [example_cert])
      else Inl (lib_error ''dial tcp: connection refused''))"

text \<open>A world with the clock at \<open>now\<close> in which chain verification answers \<open>v\<close>.\<close>

definition example_world :: "int \<Rightarrow> verify_error option \<Rightarrow> world" where
  "example_world now v =
     \<lparr>time_Now = now, time_String = show_int, IP_String = (\<lambda>ip. ''192.0.2.1''),
      SystemCertPool = Inr [], Verify = (\<lambda>cert opts. v), tls_Dial = example_dialer,
      LookupAddr = (\<lambda>a. LookupTimedOut)\<rparr>"

text \<open>An OCSP responder reached at the first URL only, which answers with status \<open>st\<close>.\<close>

definition example_ocsp_world :: "int \<Rightarrow> ocsp_world" where
  "example_ocsp_world st =
     \<lparr>CreateRequest = (\<lambda>cert issuer. Inr [1, 2, 3]),
      http_Post = (\<lambda>url contentType body.
         if url = ''http://ocsp.example.com'' then Inr \<lparr>Body = Inr [4, 5, 6]\<rparr>
         else Inl (lib_error ''no such host'')),
      ParseResponse = (\<lambda>bytes issuer. Inr \<lparr>Status = st, resp_Certificate = None\<rparr>)\<rparr>"

lemma NextIP_loop_append:
  "n \<le> length xs \<Longrightarrow> NextIP_loop (xs @ ys) n = NextIP_loop xs n @ ys"
proof (induction n arbitrary: xs)
  case 0
  then show ?case by simp
next
  case (Suc n)
  then have n: "n < length xs" by simp
  then show ?case
    using Suc.IH [of "xs[n := xs ! n + 1]"]
    by (simp add: Let_def list_update_append nth_append)
qed

lemma NextIP_Nil: "NextIP [] = []"
  by (simp add: NextIP_def)

lemma NextIP_snoc:
  "NextIP (zs @ [b]) = (if b + 1 \<noteq> 0 then zs @ [b + 1] else NextIP zs @ [0])"
  using NextIP_loop_append [of "length zs" zs "[b + 1]"]
  by (auto simp: NextIP_def Let_def word_greater_zero_iff)

lemma length_NextIP: "length (NextIP ip) = length ip"
  by (induction ip rule: rev_induct) (auto simp: NextIP_Nil NextIP_snoc)

lemma ip_val_Nil: "ip_val [] = 0"
  by (simp add: ip_val_def)

lemma ip_val_snoc: "ip_val (zs @ [b]) = ip_val zs * 256 + unat b"
  by (simp add: ip_val_def)

lemma ip_val_lt: "ip_val ip < 256 ^ length ip"
proof (induction ip rule: rev_induct)
  case Nil
  then show ?case by (simp add: ip_val_Nil)
next
  case (snoc b zs)
  have "unat b < 256" using unsigned_less [of b, where ?'a = nat] by simp
  with snoc show ?case by (simp add: ip_val_snoc)
qed

lemma byte_succ_nonzero: "(b::byte) + 1 \<noteq> 0 \<Longrightarrow> unat (b + 1) = unat b + 1"
  using unatSuc [of b] by (simp add: add.commute)

lemma byte_succ_zero: "(b::byte) + 1 = 0 \<Longrightarrow> unat b = 255"
proof -
  assume "b + 1 = 0"
  then have "b = - 1" by (simp add: eq_neg_iff_add_eq_0)
  also have "(- 1 :: byte) = 255" by simp
  finally show ?thesis by simp
qed

lemma ip_val_NextIP: "ip_val (NextIP ip) = (ip_val ip + 1) mod 256 ^ length ip"
proof (induction ip rule: rev_induct)
  case Nil
  then show ?case by (simp add: NextIP_Nil ip_val_Nil)
next
  case (snoc b zs)
  let ?n = "length zs"
  show ?case
  proof (cases "b + 1 = 0")
    case True
    have "ip_val (NextIP (zs @ [b])) = ip_val (NextIP zs) * 256"
      using True by (simp add: NextIP_snoc ip_val_snoc)
    also have "\<dots> = ((ip_val zs + 1) mod 256 ^ ?n) * 256"
      by (simp only: snoc.IH)
    also have "\<dots> = ((ip_val zs + 1) * 256) mod (256 ^ ?n * 256)"
      by (simp only: mult_mod_left)
    also have "(ip_val zs + 1) * 256 = ip_val (zs @ [b]) + 1"
      using byte_succ_zero [OF True] by (simp add: ip_val_snoc)
    also have "256 ^ ?n * 256 = (256::nat) ^ length (zs @ [b])"
      by simp
    finally show ?thesis .
  next
    case False
    have "unat b < 256" using unsigned_less [of b, where ?'a = nat] by simp
    moreover have "unat (b + 1) \<le> 255" using unsigned_less [of "b + 1", where ?'a = nat] by simp
    moreover have "ip_val zs < 256 ^ ?n" by (rule ip_val_lt)
    ultimately have lt: "ip_val zs * 256 + unat b + 1 < 256 ^ ?n * 256"
      using False by (simp add: byte_succ_nonzero)
    have "ip_val (NextIP (zs @ [b])) = ip_val zs * 256 + unat b + 1"
      using False by (simp add: NextIP_snoc ip_val_snoc byte_succ_nonzero)
    also have "\<dots> = (ip_val (zs @ [b]) + 1) mod 256 ^ length (zs @ [b])"
      using lt by (simp add: ip_val_snoc)
    finally show ?thesis .
  qed
qed

lemma NextIP_all_ones:
  "\<forall>b \<in> set ip. b = 0xff \<Longrightarrow> NextIP ip = replicate (length ip) 0"
  by (induction ip rule: rev_induct) (auto simp: NextIP_Nil NextIP_snoc replicate_append_same)

lemma CompareIPs_loop_Cons:
  "CompareIPs_loop (x # xs) (y # ys) (Suc i) = CompareIPs_loop xs ys i"
proof (induction xs ys i rule: CompareIPs_loop.induct)
  case (1 ip1 ip2 i)
  show ?case
    by (subst CompareIPs_loop.simps, subst (2) CompareIPs_loop.simps) (simp add: 1)
qed

lemma CompareIPs_loop_Nil: "CompareIPs_loop [] ys 0 = Inr 0"
  by (simp add: CompareIPs_loop.simps)

lemma CompareIPs_loop_Cons_0:
  "CompareIPs_loop (x # xs) (y # ys) 0 =
     (if x < y then Inr (- 1) else if x > y then Inr 1 else CompareIPs_loop xs ys 0)"
  by (subst CompareIPs_loop.simps) (simp add: CompareIPs_loop_Cons)

lemma CompareIPs_loop_lex:
  "length a = length b \<Longrightarrow>
   CompareIPs_loop a b 0 =
     Inr (if (a, b) \<in> lexord {(x, y). x < y} then - 1 else if a = b then 0 else 1)"
proof (induction a b rule: list_induct2)
  case Nil
  then show ?case by (simp add: CompareIPs_loop_Nil)
next
  case (Cons x xs y ys)
  then show ?case
    by (auto simp: CompareIPs_loop_Cons_0)
qed

lemma To4_length: "To4 ip = Some a \<Longrightarrow> length a = 4"
  by (auto simp: To4_def split: if_splits)

lemma CompareIPs_same_length:
  "length ip1 = length ip2 \<Longrightarrow>
   CompareIPs ip1 ip2 =
     Inr (if (ip1, ip2) \<in> lexord {(x, y). x < y} then - 1 else if ip1 = ip2 then 0 else 1)"
  by (simp add: CompareIPs_def CompareIPs_loop_lex)

lemma CompareIPs_To4:
  "length ip1 \<noteq> length ip2 \<Longrightarrow> To4 ip1 = Some a \<Longrightarrow> To4 ip2 = Some b \<Longrightarrow>
   CompareIPs ip1 ip2 =
     Inr (if (a, b) \<in> lexord {(x, y). x < y} then - 1 else if a = b then 0 else 1)"
  using CompareIPs_loop_lex [of a b] by (simp add: CompareIPs_def To4_length)

lemma CompareIPs_no_To4:
  "length ip1 \<noteq> length ip2 \<Longrightarrow> To4 ip1 = None \<or> To4 ip2 = None \<Longrightarrow> CompareIPs ip1 ip2 = Inr 0"
  by (auto simp: CompareIPs_def split: option.splits)

lemma CompareIPs_total: "\<exists>r. CompareIPs ip1 ip2 = Inr r \<and> (r = - 1 \<or> r = 0 \<or> r = 1)"
proof (cases "length ip1 = length ip2")
  case True
  then show ?thesis by (simp add: CompareIPs_same_length)
next
  case False
  show ?thesis
  proof (cases "To4 ip1 = None \<or> To4 ip2 = None")
    case True
    with False show ?thesis by (simp add: CompareIPs_no_To4)
  next
    case False
    then obtain a b where "To4 ip1 = Some a" "To4 ip2 = Some b" by auto
    with \<open>length ip1 \<noteq> length ip2\<close> show ?thesis by (simp add: CompareIPs_To4)
  qed
qed

lemma CompareIPs_loop_all_ones:
  "length a = length b \<Longrightarrow> \<forall>x \<in> set b. x = 0xff \<Longrightarrow>
   \<exists>c. CompareIPs_loop a b 0 = Inr c \<and> c \<le> 0"
proof (induction a b rule: list_induct2)
  case Nil
  then show ?case by (simp add: CompareIPs_loop_Nil)
next
  case (Cons x xs y ys)
  have "x \<le> - 1" by (rule word_n1_ge)
  also have "(- 1 :: byte) = 0xff" by simp
  finally have "x \<le> 0xff" .
  with Cons show ?case
    by (auto simp: CompareIPs_loop_Cons_0)
qed

lemma To4_all_ones:
  assumes "\<forall>x \<in> set e. x = 0xff" and "To4 e = Some b"
  shows "b = e"
proof -
  have "take 12 e \<noteq> v4InV6Prefix" if "length e = 16"
  proof -
    from that obtain x xs where e: "e = x # xs" by (cases e) auto
    with assms(1) have "x = 0xff" by simp
    with e show ?thesis by (simp add: v4InV6Prefix_def)
  qed
  with assms(2) show ?thesis by (auto simp: To4_def split: if_splits)
qed

lemma CompareIPs_all_ones:
  assumes "\<forall>x \<in> set e. x = 0xff"
  shows "\<exists>c. CompareIPs ip e = Inr c \<and> c \<le> 0"
proof (cases "length ip = length e")
  case True
  with assms show ?thesis by (simp add: CompareIPs_def CompareIPs_loop_all_ones)
next
  case False
  show ?thesis
  proof (cases "To4 ip = None \<or> To4 e = None")
    case True
    with False show ?thesis by (simp add: CompareIPs_no_To4)
  next
    case False
    then obtain a b where ab: "To4 ip = Some a" "To4 e = Some b" by auto
    then have "b = e" using assms by (simp add: To4_all_ones)
    with ab have "length a = length e" by (simp add: To4_length)
    then have "\<exists>c. CompareIPs_loop a e 0 = Inr c \<and> c \<le> 0"
      using assms by (rule CompareIPs_loop_all_ones)
    with ab \<open>b = e\<close> \<open>length ip \<noteq> length e\<close> show ?thesis by (simp add: CompareIPs_def)
  qed
qed

lemma GetIPsInRange_loop_all_ones:
  assumes "\<forall>x \<in> set e. x = 0xff"
  shows "GetIPsInRange_loop ip e ips = None"
proof -
  have "\<not> (\<forall>x \<in> set e. x = 0xff)" if ret: "GetIPsInRange_loop ip e ips = Some y" for y
  proof (rule GetIPsInRange_loop.raw_induct
      [where P = "\<lambda>ip e ips y. \<not> (\<forall>x \<in> set e. x = 0xff)", OF _ ret])
    fix loop :: "IP \<Rightarrow> IP \<Rightarrow> IP list \<Rightarrow> (panic + IP list) option"
    fix ip e :: IP and ips :: "IP list" and y :: "panic + IP list"
    assume IH: "\<And>ip e ips y. loop ip e ips = Some y \<Longrightarrow> \<not> (\<forall>x \<in> set e. x = 0xff)"
    assume body: "(case CompareIPs ip e of
        Inl p \<Rightarrow> Some (Inl p)
      | Inr c \<Rightarrow> if c \<le> 0 then loop (NextIP ip) e (ips @ [ip]) else Some (Inr ips)) = Some y"
    show "\<not> (\<forall>x \<in> set e. x = 0xff)"
    proof
      assume ones: "\<forall>x \<in> set e. x = 0xff"
      then obtain c where "CompareIPs ip e = Inr c" "c \<le> 0"
        using CompareIPs_all_ones by blast
      with body have "loop (NextIP ip) e (ips @ [ip]) = Some y" by simp
      then have "\<not> (\<forall>x \<in> set e. x = 0xff)" by (rule IH)
      with ones show False by simp
    qed
  qed
  with assms show ?thesis by (cases "GetIPsInRange_loop ip e ips") auto
qed

lemma foldl_ip_val: "foldl (\<lambda>acc b. acc * 256 + unat (b::byte)) a xs = a * 256 ^ length xs + ip_val xs"
proof (induction xs arbitrary: a)
  case Nil
  then show ?case by (simp add: ip_val_def)
next
  case (Cons x xs)
  show ?case
    using Cons [of "a * 256 + unat x"] Cons [of "unat x"]
    by (simp add: ip_val_def algebra_simps)
qed

lemma ip_val_Cons: "ip_val (x # xs) = unat x * 256 ^ length xs + ip_val xs"
  using foldl_ip_val [of "unat x" xs] by (simp add: ip_val_def)

lemma digit_less:
  fixes a b r s P :: nat
  assumes "a < b" and "r < P"
  shows "a * P + r < b * P + s"
proof -
  have "a * P + r < (a + 1) * P" using assms(2) by simp
  also have "\<dots> \<le> b * P" using assms(1) by (intro mult_le_mono1) simp
  finally show ?thesis by simp
qed

lemma lexord_ip_val:
  "length a = length b \<Longrightarrow> (a, b) \<in> lexord {(x, y). x < y} \<longleftrightarrow> ip_val a < ip_val b"
proof (induction a b rule: list_induct2)
  case Nil
  then show ?case by (simp add: ip_val_Nil)
next
  case (Cons x xs y ys)
  let ?P = "256 ^ length xs :: nat"
  have bx: "ip_val xs < ?P" by (rule ip_val_lt)
  have by': "ip_val ys < ?P" using ip_val_lt [of ys] Cons.hyps by simp
  consider "x < y" | "x = y" | "y < x" by (meson linorder_cases)
  then show ?case
  proof cases
    case 1
    then have "unat x < unat y" by (simp add: word_less_nat_alt)
    from digit_less [OF this bx] 1 show ?thesis
      by (simp add: ip_val_Cons Cons.hyps)
  next
    case 2
    with Cons show ?thesis by (simp add: ip_val_Cons)
  next
    case 3
    then have "unat y < unat x" by (simp add: word_less_nat_alt)
    from digit_less [OF this by'] have "\<not> ip_val (x # xs) < ip_val (y # ys)"
      by (simp add: ip_val_Cons Cons.hyps not_less less_imp_le)
    with 3 show ?thesis by auto
  qed
qed

lemma ip_val_inj: "length a = length b \<Longrightarrow> ip_val a = ip_val b \<Longrightarrow> a = b"
proof (induction a b rule: list_induct2)
  case Nil
  then show ?case by simp
next
  case (Cons x xs y ys)
  have nlt: "\<not> ip_val (x # xs) < ip_val (y # ys)" "\<not> ip_val (y # ys) < ip_val (x # xs)"
    using Cons.prems by simp_all
  have "x = y"
  proof (rule ccontr)
    assume "x \<noteq> y"
    then consider "x < y" | "y < x" by (meson linorder_neqE)
    then show False
    proof cases
      case 1
      then have "(x # xs, y # ys) \<in> lexord {(x, y). x < y}" by simp
      then show False using lexord_ip_val [of "x # xs" "y # ys"] Cons.hyps nlt by simp
    next
      case 2
      then have "(y # ys, x # xs) \<in> lexord {(x, y). x < y}" by simp
      then show False using lexord_ip_val [of "y # ys" "x # xs"] Cons.hyps nlt by simp
    qed
  qed
  with Cons show ?case by (simp add: ip_val_Cons)
qed

lemma CompareIPs_ip_val:
  assumes "length a = length b"
  shows "CompareIPs a b =
     Inr (if ip_val a < ip_val b then - 1 else if ip_val a = ip_val b then 0 else 1)"
proof -
  have "a = b \<longleftrightarrow> ip_val a = ip_val b" using ip_val_inj [OF assms] by auto
  then show ?thesis
    using assms by (simp add: CompareIPs_same_length lexord_ip_val)
qed

lemma length_funpow_NextIP: "length ((NextIP ^^ k) ip) = length ip"
  by (induction k) (simp_all add: length_NextIP)

lemma ip_val_funpow_NextIP:
  "ip_val ip + k < 256 ^ length ip \<Longrightarrow> ip_val ((NextIP ^^ k) ip) = ip_val ip + k"
proof (induction k)
  case 0
  then show ?case by simp
next
  case (Suc k)
  then show ?case
    by (simp add: ip_val_NextIP length_funpow_NextIP)
qed

lemma GetIPsInRange_loop_enumerates:
  assumes "length ip = length e" and "ip_val ip \<le> ip_val e" and "ip_val e + 1 < 256 ^ length e"
    and "d = ip_val e - ip_val ip"
  shows "GetIPsInRange_loop ip e ips =
           Some (Inr (ips @ map (\<lambda>k. (NextIP ^^ k) ip) [0..<Suc d]))"
  using assms
proof (induction d arbitrary: ip ips)
  case 0
  then have eq: "ip_val ip = ip_val e" by simp
  note len = "0.prems"(1) and bound = "0.prems"(3)
  have next_val: "ip_val (NextIP ip) = ip_val e + 1"
    using len bound eq by (simp add: ip_val_NextIP)
  have "GetIPsInRange_loop ip e ips = GetIPsInRange_loop (NextIP ip) e (ips @ [ip])"
    by (subst GetIPsInRange_loop.simps) (simp add: CompareIPs_ip_val len eq)
  also have "\<dots> = Some (Inr (ips @ [ip]))"
    by (subst GetIPsInRange_loop.simps)
      (simp add: CompareIPs_ip_val length_NextIP len next_val)
  finally show ?case by simp
next
  case (Suc d)
  then have lt: "ip_val ip < ip_val e" by simp
  note len = Suc.prems(1) and bound = Suc.prems(3)
  have next_val: "ip_val (NextIP ip) = ip_val ip + 1"
    using len bound lt by (simp add: ip_val_NextIP)
  have "GetIPsInRange_loop ip e ips = GetIPsInRange_loop (NextIP ip) e (ips @ [ip])"
    by (subst GetIPsInRange_loop.simps) (simp add: CompareIPs_ip_val len lt)
  also have "\<dots> = Some (Inr ((ips @ [ip]) @ map (\<lambda>k. (NextIP ^^ k) (NextIP ip)) [0..<Suc d]))"
  proof (rule Suc.IH)
    show "length (NextIP ip) = length e" using len by (simp add: length_NextIP)
    show "ip_val (NextIP ip) \<le> ip_val e" using lt next_val by simp
    show "ip_val e + 1 < 256 ^ length e" by (rule bound)
    show "d = ip_val e - ip_val (NextIP ip)" using Suc.prems(4) next_val by simp
  qed
  also have "map (\<lambda>k. (NextIP ^^ k) (NextIP ip)) [0..<Suc d] =
             map (\<lambda>k. (NextIP ^^ k) ip) [Suc 0..<Suc (Suc d)]"
    by (simp only: map_Suc_upt [symmetric] map_map o_def funpow_Suc_right)
  also have "(ips @ [ip]) @ map (\<lambda>k. (NextIP ^^ k) ip) [Suc 0..<Suc (Suc d)] =
             ips @ map (\<lambda>k. (NextIP ^^ k) ip) [0..<Suc (Suc d)]"
  proof -
    have "[0..<Suc (Suc d)] = 0 # [Suc 0..<Suc (Suc d)]" by (rule upt_conv_Cons) simp
    then show ?thesis by (simp del: upt_Suc)
  qed
  finally show ?case .
qed

lemma GetIPsInRange_enumerates:
  assumes "length s = length e" and "ip_val s \<le> ip_val e" and "ip_val e + 1 < 256 ^ length e"
  shows "\<exists>ips. GetIPsInRange \<lparr>Start = s, End = e\<rparr> = Some (Inr ips)
           \<and> length ips = Suc (ip_val e - ip_val s)
           \<and> map ip_val ips = [ip_val s..<Suc (ip_val e)]
           \<and> (\<forall>ip \<in> set ips. length ip = length s)
           \<and> (\<forall>i. Suc i < length ips \<longrightarrow> ips ! Suc i = NextIP (ips ! i))"
proof -
  let ?d = "ip_val e - ip_val s"
  let ?ips = "map (\<lambda>k. (NextIP ^^ k) s) [0..<Suc ?d]"
  have ret: "GetIPsInRange \<lparr>Start = s, End = e\<rparr> = Some (Inr ?ips)"
    using GetIPsInRange_loop_enumerates [OF assms refl, of "[]"] by (simp add: GetIPsInRange_def)
  have nth: "?ips ! i = (NextIP ^^ i) s" if "i \<le> ?d" for i
  proof -
    from that have "i < length [0..<Suc ?d]" by simp
    then have "?ips ! i = (NextIP ^^ ([0..<Suc ?d] ! i)) s" by (rule nth_map)
    also have "[0..<Suc ?d] ! i = i" using that by (simp del: upt_Suc)
    finally show ?thesis .
  qed
  have len: "length ?ips = Suc ?d" by simp
  have vals: "map ip_val ?ips = [ip_val s..<Suc (ip_val e)]"
  proof (rule nth_equalityI)
    show "length (map ip_val ?ips) = length [ip_val s..<Suc (ip_val e)]"
      using assms(2) by simp
  next
    fix i assume "i < length (map ip_val ?ips)"
    then have i: "i \<le> ?d" by simp
    then have "ip_val s + i < 256 ^ length s" using assms by simp
    then have "ip_val ((NextIP ^^ i) s) = ip_val s + i" by (rule ip_val_funpow_NextIP)
    moreover have "map ip_val ?ips ! i = ip_val (?ips ! i)"
      using i by (intro nth_map) simp
    moreover have "[ip_val s..<Suc (ip_val e)] ! i = ip_val s + i"
      using i assms(2) by (intro nth_upt) simp
    ultimately show "map ip_val ?ips ! i = [ip_val s..<Suc (ip_val e)] ! i"
      using nth [OF i] by simp
  qed
  have lens: "\<forall>ip \<in> set ?ips. length ip = length s"
    by (auto simp: length_funpow_NextIP)
  have succ: "\<forall>i. Suc i < length ?ips \<longrightarrow> ?ips ! Suc i = NextIP (?ips ! i)"
  proof (intro allI impI)
    fix i assume "Suc i < length ?ips"
    then have "Suc i \<le> ?d" "i \<le> ?d" by simp_all
    then show "?ips ! Suc i = NextIP (?ips ! i)" by (simp only: nth funpow.simps o_apply)
  qed
  from ret len vals lens succ show ?thesis by blast
qed

lemma GetIPsInRange_256:
  "\<exists>ips. GetIPsInRange \<lparr>Start = [192, 168, 1, 0], End = [192, 168, 1, 255]\<rparr> = Some (Inr ips)
     \<and> length ips = 256"
proof -
  have v: "ip_val [192, 168, 1, 0] = 3232235776" "ip_val [192, 168, 1, 255] = 3232236031"
    by (simp_all add: ip_val_def)
  have "length [192, 168, 1, 0 :: byte] = length [192, 168, 1, 255 :: byte]" by simp
  moreover have "ip_val [192, 168, 1, 0] \<le> ip_val [192, 168, 1, 255]" by (simp add: v)
  moreover have "ip_val [192, 168, 1, 255] + 1 < 256 ^ length [192, 168, 1, 255 :: byte]"
    by (simp add: v)
  ultimately obtain ips where
    "GetIPsInRange \<lparr>Start = [192, 168, 1, 0], End = [192, 168, 1, 255]\<rparr> = Some (Inr ips)"
    "length ips = Suc (ip_val [192, 168, 1, 255] - ip_val [192, 168, 1, 0])"
    using GetIPsInRange_enumerates [of "[192, 168, 1, 0]" "[192, 168, 1, 255]"] by blast
  then show ?thesis by (simp add: v)
qed

lemma NextIP_carry: "NextIP [192, 168, 1, 255] = [192, 168, 2, 0]"
  by code_simp

section \<open>Results on address comparison and enumeration\<close>

text \<open>
  Claim C8. CompareIPs is total and never panics: for every pair of byte slices it returns
  one of -1, 0, 1. For operands of the same byte length the result is the sign of the
  byte-wise lexicographic comparison; when the lengths differ and both operands have a
  4-byte form, it is the sign of the comparison of the 4-byte forms; when the lengths
  differ and one operand has no 4-byte form, the result is 0.
\<close>

theorem CompareIPs_total_lexicographic:
  "(\<exists>r. CompareIPs ip1 ip2 = Inr r \<and> (r = - 1 \<or> r = 0 \<or> r = 1))
   \<and> (length ip1 = length ip2 \<longrightarrow>
        CompareIPs ip1 ip2 =
          Inr (if (ip1, ip2) \<in> lexord {(x, y). x < y} then - 1 else if ip1 = ip2 then 0 else 1))
   \<and> (length ip1 \<noteq> length ip2 \<and> To4 ip1 = Some a \<and> To4 ip2 = Some b \<longrightarrow>
        CompareIPs ip1 ip2 =
          Inr (if (a, b) \<in> lexord {(x, y). x < y} then - 1 else if a = b then 0 else 1))
   \<and> (length ip1 \<noteq> length ip2 \<and> (To4 ip1 = None \<or> To4 ip2 = None) \<longrightarrow>
        CompareIPs ip1 ip2 = Inr 0)"
  using CompareIPs_total [of ip1 ip2] CompareIPs_same_length [of ip1 ip2]
    CompareIPs_To4 [of ip1 ip2 a b] CompareIPs_no_To4 [of ip1 ip2]
  by blast

theorem CompareIPs_total_lexicographic_witness:
  "CompareIPs [192, 168, 1, 1] [192, 168, 1, 2] = Inr (- 1)
   \<and> CompareIPs [192, 168, 1, 2] [192, 168, 1, 1] = Inr 1
   \<and> CompareIPs [192, 168, 1, 1] [192, 168, 1, 1] = Inr 0
   \<and> CompareIPs [192, 168, 1, 1] [0, 0, 0, 0, 0, 0, 0, 0, 0, 0, 0xff, 0xff, 192, 168, 1, 2] = Inr (- 1)
   \<and> CompareIPs [192, 168, 1, 1] [0x20, 0x01, 0x0d, 0xb8, 0, 0, 0, 0, 0, 0, 0, 0, 0, 0, 0, 1] = Inr 0"
proof -
  have 1: "CompareIPs [192, 168, 1, 1] [192, 168, 1, 2] = Inr (- 1)"
    using CompareIPs_total_lexicographic [of "[192, 168, 1, 1]" "[192, 168, 1, 2]"] by simp
  have 2: "CompareIPs [192, 168, 1, 2] [192, 168, 1, 1] = Inr 1"
    using CompareIPs_total_lexicographic [of "[192, 168, 1, 2]" "[192, 168, 1, 1]"] by simp
  have 3: "CompareIPs [192, 168, 1, 1] [192, 168, 1, 1] = Inr 0"
    using CompareIPs_total_lexicographic [of "[192, 168, 1, 1]" "[192, 168, 1, 1]"] by simp
  have 4: "CompareIPs [192, 168, 1, 1] [0, 0, 0, 0, 0, 0, 0, 0, 0, 0, 0xff, 0xff, 192, 168, 1, 2] = Inr (- 1)"
    using CompareIPs_total_lexicographic [of "[192, 168, 1, 1]"
        "[0, 0, 0, 0, 0, 0, 0, 0, 0, 0, 0xff, 0xff, 192, 168, 1, 2]" "[192, 168, 1, 1]" "[192, 168, 1, 2]"]
    by (simp add: To4_def v4InV6Prefix_def)
  have 5: "CompareIPs [192, 168, 1, 1] [0x20, 0x01, 0x0d, 0xb8, 0, 0, 0, 0, 0, 0, 0, 0, 0, 0, 0, 1] = Inr 0"
    using CompareIPs_total_lexicographic [of "[192, 168, 1, 1]"
        "[0x20, 0x01, 0x0d, 0xb8, 0, 0, 0, 0, 0, 0, 0, 0, 0, 0, 0, 1]"]
    by (simp add: To4_def v4InV6Prefix_def)
  from 1 2 3 4 5 show ?thesis by blast
qed

text \<open>
  Claim C10. NextIP computes the successor modulo \<open>256 ^ len\<close> of the big-endian value
  and keeps the length, so the address of all 0xFF bytes is followed by the all-zero
  address; and GetIPsInRange on a range whose end is all 0xFF bytes never returns, from
  any start (every address compares below or equal to such an end).
\<close>

theorem NextIP_wraps_enumeration_diverges:
  "ip_val (NextIP ip) = (ip_val ip + 1) mod 256 ^ length ip
   \<and> length (NextIP ip) = length ip
   \<and> ((\<forall>b \<in> set ip. b = 0xff) \<longrightarrow> NextIP ip = replicate (length ip) 0)
   \<and> ((\<forall>b \<in> set e. b = 0xff) \<longrightarrow> GetIPsInRange \<lparr>Start = s, End = e\<rparr> = None)"
  by (simp add: ip_val_NextIP length_NextIP NextIP_all_ones GetIPsInRange_def
      GetIPsInRange_loop_all_ones)

theorem NextIP_wraps_enumeration_diverges_witness:
  "NextIP [255, 255, 255, 255] = [0, 0, 0, 0]
   \<and> ip_val (NextIP [255, 255, 255, 255]) = 0
   \<and> GetIPsInRange \<lparr>Start = [255, 255, 255, 0], End = [255, 255, 255, 255]\<rparr> = None"
  using NextIP_wraps_enumeration_diverges
    [of "[255, 255, 255, 255]" "[255, 255, 255, 255]" "[255, 255, 255, 0]"]
  by (simp add: ip_val_def)

text \<open>
  Claim C3, at the range 255.255.255.255 to 255.255.255.255 (what ParseIPOrSubnet returns
  for that address): start and end have the same length and compare equal, yet
  GetIPsInRange does not return. For every range of equal lengths whose end is not the
  all-ones address the enumeration is as the claim says (lemma
  \<open>GetIPsInRange_enumerates\<close>), 192.168.1.0 to 192.168.1.255 gives 256 addresses
  (\<open>GetIPsInRange_256\<close>) and 192.168.1.255 is followed by 192.168.2.0 (\<open>NextIP_carry\<close>).
\<close>

theorem GetIPsInRange_broadcast_never_returns:
  "length (Start \<lparr>Start = [255, 255, 255, 255], End = [255, 255, 255, 255]\<rparr>) =
     length (End \<lparr>Start = [255, 255, 255, 255], End = [255, 255, 255, 255]\<rparr>)
   \<and> CompareIPs [255, 255, 255, 255] [255, 255, 255, 255] = Inr 0
   \<and> GetIPsInRange \<lparr>Start = [255, 255, 255, 255], End = [255, 255, 255, 255]\<rparr> = None"
  by (simp add: CompareIPs_same_length GetIPsInRange_def GetIPsInRange_loop_all_ones)

section \<open>Results on parseSubnet\<close>

lemma length_CIDRMask_loop: "length (CIDRMask_loop n l) = l"
  by (induction n l rule: CIDRMask_loop.induct) auto

lemma length_CIDRMask: "length (CIDRMask n bits) = bits div 8"
  by (simp add: CIDRMask_def length_CIDRMask_loop)

lemma parseSubnet_loop_eq:
  "length e = length m \<Longrightarrow> i \<le> length m \<Longrightarrow>
   parseSubnet_loop e m i =
     Inr (take i e @ map (\<lambda>(a, m). a OR NOT m) (zip (drop i e) (drop i m)))"
proof (induction "length m - i" arbitrary: i e)
  case 0
  then show ?case by (subst parseSubnet_loop.simps) simp
next
  case (Suc d)
  then have i: "i < length m" "i < length e" by simp_all
  let ?e = "e[i := e ! i OR NOT (m ! i)]"
  have "parseSubnet_loop e m i = parseSubnet_loop ?e m (Suc i)"
    using i by (subst parseSubnet_loop.simps) simp
  also have "\<dots> = Inr (take (Suc i) ?e @ map (\<lambda>(a, m). a OR NOT m) (zip (drop (Suc i) ?e) (drop (Suc i) m)))"
    using Suc.hyps(2) Suc.prems i by (intro Suc.hyps(1)) simp_all
  also have "take (Suc i) ?e = take i e @ [e ! i OR NOT (m ! i)]"
    using i by (simp add: take_Suc_conv_app_nth)
  also have "drop (Suc i) ?e = drop (Suc i) e" by simp
  also have "(take i e @ [e ! i OR NOT (m ! i)]) @
       map (\<lambda>(a, m). a OR NOT m) (zip (drop (Suc i) e) (drop (Suc i) m)) =
     take i e @ map (\<lambda>(a, m). a OR NOT m) (zip (drop i e) (drop i m))"
    using i by (simp add: Cons_nth_drop_Suc [symmetric])
  finally show ?case .
qed

lemma parseSubnet_loop_panics:
  "length e < length m \<Longrightarrow> i \<le> length e \<Longrightarrow> parseSubnet_loop e m i = Inl IndexOutOfRange"
proof (induction "length e - i" arbitrary: i e)
  case 0
  then show ?case by (subst parseSubnet_loop.simps) simp
next
  case (Suc d)
  then have i: "i < length e" by simp
  let ?e = "e[i := e ! i OR NOT (m ! i)]"
  have "parseSubnet_loop e m i = parseSubnet_loop ?e m (Suc i)"
    using i Suc.prems by (subst parseSubnet_loop.simps) simp
  also have "\<dots> = Inl IndexOutOfRange"
    using Suc.hyps(2) Suc.prems i by (intro Suc.hyps(1)) simp_all
  finally show ?case .
qed

lemma To4_mapped: "length b = 4 \<Longrightarrow> To4 (v4InV6Prefix @ b) = Some b"
  by (simp add: To4_def v4InV6Prefix_def)

lemma Mask_same_length:
  "length ip = length m \<Longrightarrow> Mask ip m = map (\<lambda>(a, m). a AND m) (zip ip m)"
  by (auto simp: Mask_def Let_def)

lemma length_Mask_4: "length ip = 4 \<Longrightarrow> length (Mask ip m) \<le> 4"
  by (auto simp: Mask_def Let_def)

lemma parseSubnet_Addr4:
  assumes "length b = 4" and "n \<le> 32"
  shows "parseSubnet (Some (Addr4 b, n)) =
           Ok \<lparr>Start = map (\<lambda>(a, m). a AND m) (zip b (CIDRMask n 32)),
               End = map (\<lambda>(s, m). s OR NOT m)
                       (zip (map (\<lambda>(a, m). a AND m) (zip b (CIDRMask n 32))) (CIDRMask n 32))\<rparr>"
proof -
  let ?m = "CIDRMask n 32"
  have lm: "length ?m = 4" by (simp add: length_CIDRMask)
  have start: "Mask b ?m = map (\<lambda>(a, m). a AND m) (zip b ?m)"
    using assms lm by (simp add: Mask_same_length)
  have "parseSubnet_loop (Mask b ?m) ?m 0 =
          Inr (map (\<lambda>(s, m). s OR NOT m) (zip (Mask b ?m) ?m))"
    using parseSubnet_loop_eq [of "Mask b ?m" ?m 0] assms lm by (simp add: start)
  then show ?thesis
    using assms by (simp add: parseSubnet_def ParseCIDR_def Let_def To4_mapped start)
qed

lemma parseSubnet_Addr6:
  assumes "length b = 16" and "take 12 b \<noteq> v4InV6Prefix" and "n \<le> 128"
  shows "parseSubnet (Some (Addr6 b, n)) =
           Ok \<lparr>Start = map (\<lambda>(a, m). a AND m) (zip b (CIDRMask n 128)),
               End = map (\<lambda>(s, m). s OR NOT m)
                       (zip (map (\<lambda>(a, m). a AND m) (zip b (CIDRMask n 128))) (CIDRMask n 128))\<rparr>"
proof -
  let ?m = "CIDRMask n 128"
  have lm: "length ?m = 16" by (simp add: length_CIDRMask)
  have To4: "To4 b = None" using assms by (simp add: To4_def)
  have start: "Mask b ?m = map (\<lambda>(a, m). a AND m) (zip b ?m)"
    using assms lm by (simp add: Mask_same_length)
  have "parseSubnet_loop (Mask b ?m) ?m 0 =
          Inr (map (\<lambda>(s, m). s OR NOT m) (zip (Mask b ?m) ?m))"
    using parseSubnet_loop_eq [of "Mask b ?m" ?m 0] assms lm by (simp add: start)
  then show ?thesis
    using assms by (simp add: parseSubnet_def ParseCIDR_def Let_def To4 start)
qed

lemma parseSubnet_mapped_panics:
  assumes "length b = 16" and "take 12 b = v4InV6Prefix" and "n \<le> 128"
  shows "parseSubnet (Some (Addr6 b, n)) = Panic IndexOutOfRange"
proof -
  let ?m = "CIDRMask n 128"
  have lm: "length ?m = 16" by (simp add: length_CIDRMask)
  have To4: "To4 b = Some (drop 12 b)" using assms by (simp add: To4_def)
  have "length (Mask (drop 12 b) ?m) \<le> 4" using assms by (intro length_Mask_4) simp
  then have "parseSubnet_loop (Mask (drop 12 b) ?m) ?m 0 = Inl IndexOutOfRange"
    using lm by (intro parseSubnet_loop_panics) simp_all
  then show ?thesis
    using assms by (simp add: parseSubnet_def ParseCIDR_def Let_def To4)
qed

lemma parseSubnet_192_168_1_0_24:
  "parseSubnet (Some (Addr4 [192, 168, 1, 0], 24)) =
     Ok \<lparr>Start = [192, 168, 1, 0], End = [192, 168, 1, 255]\<rparr>"
  by code_simp

text \<open>
  Claim C5, at the CIDR text \<open>::ffff:192.168.1.0/120\<close> (an IPv4-mapped IPv6 network, which
  \<open>net.ParseCIDR\<close> accepts with a 16-byte mask): parseSubnet shortens the address to 4
  bytes, \<open>end\<close> has 4 bytes, and the loop over the 16 bytes of the mask indexes \<open>end[4]\<close>.
  The call panics instead of returning a range. For IPv4 and for other IPv6 networks
  the range is as the claim says (lemmas \<open>parseSubnet_Addr4\<close>, \<open>parseSubnet_Addr6\<close>,
  \<open>parseSubnet_192_168_1_0_24\<close>).
\<close>

theorem parseSubnet_mapped_cidr_panics:
  "wf_Addr (Addr6 [0, 0, 0, 0, 0, 0, 0, 0, 0, 0, 0xff, 0xff, 192, 168, 1, 0])
   \<and> 120 \<le> BitLen (Addr6 [0, 0, 0, 0, 0, 0, 0, 0, 0, 0, 0xff, 0xff, 192, 168, 1, 0])
   \<and> parseSubnet (Some (Addr6 [0, 0, 0, 0, 0, 0, 0, 0, 0, 0, 0xff, 0xff, 192, 168, 1, 0], 120)) =
       Panic IndexOutOfRange"
  using parseSubnet_mapped_panics [of "[0, 0, 0, 0, 0, 0, 0, 0, 0, 0, 0xff, 0xff, 192, 168, 1, 0]" 120]
  by (simp add: v4InV6Prefix_def)

section \<open>Results on ChunkSlice\<close>

lemma wrap64_id: "- (2 ^ 63) \<le> x \<Longrightarrow> x < 2 ^ 63 \<Longrightarrow> wrap64 x = x"
  by (simp add: wrap64_def)

lemma ChunkSlice_loop_exit:
  "int (length xs) \<le> i \<Longrightarrow> ChunkSlice_loop xs C i chunks = Some (Inr chunks)"
  by (subst ChunkSlice_loop.simps) simp

lemma ChunkSlice_loop_step:
  assumes "0 < C" and "C < 2 ^ 63" and "int (length xs) < 2 ^ 62"
    and "0 \<le> i" and "i = 0 \<or> C \<le> i" and "i < int (length xs)"
  shows "ChunkSlice_loop xs C i chunks =
           ChunkSlice_loop xs C (i + C)
             (chunks @ [take (nat (min (i + C) (int (length xs)) - i)) (drop (nat i) xs)])"
proof -
  have "i + C < 2 ^ 63" using assms by auto
  moreover have "- (2 ^ 63) \<le> i + C" using assms by simp
  ultimately have w: "wrap64 (i + C) = i + C" by (rule wrap64_id [rotated])
  show ?thesis
    using assms by (subst ChunkSlice_loop.simps) (simp add: w Let_def min_def)
qed

lemma ChunkSlice_loop_correct:
  assumes "0 < C" and "C < 2 ^ 63" and "int (length xs) < 2 ^ 62"
    and "0 \<le> i" and "i = 0 \<or> C \<le> i"
  shows "\<exists>bs. ChunkSlice_loop xs C i chunks = Some (Inr (chunks @ bs))
           \<and> concat bs = drop (nat i) xs
           \<and> (\<forall>b \<in> set (butlast bs). length b = nat C)
           \<and> (\<forall>b \<in> set bs. 1 \<le> length b \<and> length b \<le> nat C)
           \<and> (bs = [] \<longleftrightarrow> int (length xs) \<le> i)"
  using assms(4,5)
proof (induction "nat (int (length xs) - i)" arbitrary: i chunks rule: less_induct)
  case less
  let ?n = "int (length xs)"
  show ?case
  proof (cases "?n \<le> i")
    case True
    then have "ChunkSlice_loop xs C i chunks = Some (Inr (chunks @ []))"
      by (simp add: ChunkSlice_loop_exit)
    moreover have "drop (nat i) xs = []" using True by simp
    ultimately show ?thesis using True by (intro exI [of _ "[]"]) simp
  next
    case False
    then have lt: "i < ?n" by simp
    let ?k = "nat (min (i + C) ?n - i)"
    let ?first = "take ?k (drop (nat i) xs)"
    have k_le: "?k \<le> length xs - nat i" using lt less.prems(1) by (auto simp: min_def)
    have len_first: "length ?first = ?k" using k_le by simp
    have k_pos: "1 \<le> ?k" using lt assms(1) by (auto simp: min_def)
    have k_C: "?k \<le> nat C" using assms(1) by (auto simp: min_def)
    have step: "ChunkSlice_loop xs C i chunks = ChunkSlice_loop xs C (i + C) (chunks @ [?first])"
      using assms(1-3) less.prems lt by (rule ChunkSlice_loop_step)
    have "nat (?n - (i + C)) < nat (?n - i)" using lt assms(1) by simp
    moreover have "0 \<le> i + C" using less.prems(1) assms(1) by simp
    moreover have "i + C = 0 \<or> C \<le> i + C" using less.prems(1) by simp
    ultimately obtain bs where bs:
      "ChunkSlice_loop xs C (i + C) (chunks @ [?first]) = Some (Inr ((chunks @ [?first]) @ bs))"
      "concat bs = drop (nat (i + C)) xs"
      "\<forall>b \<in> set (butlast bs). length b = nat C"
      "\<forall>b \<in> set bs. 1 \<le> length b \<and> length b \<le> nat C"
      "bs = [] \<longleftrightarrow> ?n \<le> i + C"
      using less.hyps [of "i + C" "chunks @ [?first]"] by blast
    have ret: "ChunkSlice_loop xs C i chunks = Some (Inr (chunks @ (?first # bs)))"
      using step bs(1) by simp
    have cat: "concat (?first # bs) = drop (nat i) xs"
    proof (cases "i + C \<le> ?n")
      case True
      then have k: "?k = nat C" by (simp add: min_def)
      have "nat (i + C) = nat C + nat i" using less.prems(1) assms(1) by (simp add: nat_add_distrib)
      then have d: "drop (nat (i + C)) xs = drop (nat C) (drop (nat i) xs)" by simp
      have "concat (?first # bs) = ?first @ concat bs" by simp
      also have "\<dots> = take (nat C) (drop (nat i) xs) @ drop (nat C) (drop (nat i) xs)"
        by (simp only: bs(2) k d)
      also have "\<dots> = drop (nat i) xs" by (rule append_take_drop_id)
      finally show ?thesis .
    next
      case False
      then have "bs = []" using bs(5) by simp
      moreover have "?k = length xs - nat i" using False lt less.prems(1) by (auto simp: min_def)
      ultimately show ?thesis by simp
    qed
    have full: "\<forall>b \<in> set (butlast (?first # bs)). length b = nat C"
    proof (cases "bs = []")
      case True
      then show ?thesis by simp
    next
      case False
      then have "i + C < ?n" using bs(5) by simp
      then have "?k = nat C" by (simp add: min_def)
      with len_first have "length ?first = nat C" by simp
      with False bs(3) show ?thesis by simp
    qed
    have sizes: "\<forall>b \<in> set (?first # bs). 1 \<le> length b \<and> length b \<le> nat C"
      using bs(4) k_pos k_C len_first by simp
    have "(?first # bs = []) \<longleftrightarrow> ?n \<le> i" using lt by simp
    with ret cat full sizes show ?thesis by blast
  qed
qed

text \<open>
  Claim C2. For a positive chunk size ChunkSlice returns batches whose concatenation in
  order is the input list (so no element is duplicated or lost), every batch but the
  last has exactly chunkSize elements, every batch (the last included) has between 1 and
  chunkSize elements, and a non-empty list gives at least one batch; for a chunk size
  of zero or less it returns no batches and does not fail. The two hypotheses say that
  the arguments are Go values: chunkSize is a 64-bit int, and a slice of 16-byte string
  headers has fewer than \<open>2 ^ 62\<close> elements.
\<close>

theorem ChunkSlice_partitions:
  assumes "int (length L) < 2 ^ 62" and "C < 2 ^ 63"
  shows "(0 < C \<longrightarrow>
            (\<exists>bs. ChunkSlice L C = Some (Inr bs)
               \<and> concat bs = L
               \<and> (\<forall>b \<in> set (butlast bs). length b = nat C)
               \<and> (\<forall>b \<in> set bs. 1 \<le> length b \<and> length b \<le> nat C)
               \<and> (L \<noteq> [] \<longrightarrow> bs \<noteq> [] \<and> 1 \<le> length (last bs) \<and> length (last bs) \<le> nat C)))
         \<and> (C \<le> 0 \<longrightarrow> ChunkSlice L C = Some (Inr []))"
proof (intro conjI impI)
  assume C: "0 < C"
  obtain bs where bs:
    "ChunkSlice_loop L C 0 [] = Some (Inr ([] @ bs))"
    "concat bs = drop (nat 0) L"
    "\<forall>b \<in> set (butlast bs). length b = nat C"
    "\<forall>b \<in> set bs. 1 \<le> length b \<and> length b \<le> nat C"
    "bs = [] \<longleftrightarrow> int (length L) \<le> 0"
    using ChunkSlice_loop_correct [OF C assms(2,1), of 0 "[]"] by auto
  have "L \<noteq> [] \<longrightarrow> bs \<noteq> [] \<and> 1 \<le> length (last bs) \<and> length (last bs) \<le> nat C"
    using bs(4,5) by (auto dest: last_in_set)
  with bs C show "\<exists>bs. ChunkSlice L C = Some (Inr bs)
      \<and> concat bs = L
      \<and> (\<forall>b \<in> set (butlast bs). length b = nat C)
      \<and> (\<forall>b \<in> set bs. 1 \<le> length b \<and> length b \<le> nat C)
      \<and> (L \<noteq> [] \<longrightarrow> bs \<noteq> [] \<and> 1 \<le> length (last bs) \<and> length (last bs) \<le> nat C)"
    by (intro exI [of _ bs]) (simp add: ChunkSlice_def)
next
  assume "C \<le> 0"
  then show "ChunkSlice L C = Some (Inr [])" by (simp add: ChunkSlice_def)
qed

lemma ChunkSlice_example:
  "ChunkSlice [''a'', ''b'', ''c'', ''d'', ''e''] 2 = Some (Inr [[''a'', ''b''], [''c'', ''d''], [''e'']])"
  by (simp add: ChunkSlice_def ChunkSlice_loop.simps wrap64_def)

theorem ChunkSlice_partitions_witness:
  "(\<exists>bs. ChunkSlice [''a'', ''b'', ''c'', ''d'', ''e''] 2 = Some (Inr bs)
      \<and> concat bs = [''a'', ''b'', ''c'', ''d'', ''e'']
      \<and> bs \<noteq> [] \<and> length (last bs) \<le> 2)
   \<and> ChunkSlice [''a'', ''b'', ''c''] 0 = Some (Inr [])
   \<and> ChunkSlice [''a'', ''b'', ''c''] (- 1) = Some (Inr [])"
proof -
  have 1: "\<exists>bs. ChunkSlice [''a'', ''b'', ''c'', ''d'', ''e''] 2 = Some (Inr bs)
      \<and> concat bs = [''a'', ''b'', ''c'', ''d'', ''e'']
      \<and> bs \<noteq> [] \<and> length (last bs) \<le> 2"
    using ChunkSlice_partitions [of "[''a'', ''b'', ''c'', ''d'', ''e'']" 2] by auto
  have 2: "ChunkSlice [''a'', ''b'', ''c''] 0 = Some (Inr [])"
    using ChunkSlice_partitions [of "[''a'', ''b'', ''c'']" 0] by simp
  have 3: "ChunkSlice [''a'', ''b'', ''c''] (- 1) = Some (Inr [])"
    using ChunkSlice_partitions [of "[''a'', ''b'', ''c'']" "- 1"] by simp
  from 1 2 3 show ?thesis by blast
qed

section \<open>Results on the probes\<close>

lemma isHostnameInCert_loop_iff:
  "isHostnameInCert_loop sans hostname \<longleftrightarrow> hostname \<in> set sans"
  by (induction sans) auto

text \<open>
  Claim C6. isHostnameInCert returns true exactly when the hostname equals, as a string
  (byte for byte, so case-sensitively), the subject common name or one of the DNS
  subject-alternative names. Nothing else matches: on the example certificate (common
  name example.com, alternative names www.example.com and *.example.org) a name under
  the wildcard entry, a name with a listed name as suffix, and a name that differs only
  in case all give false.
\<close>

theorem isHostnameInCert_exact:
  "(isHostnameInCert cert hostname \<longleftrightarrow>
      hostname = Subject_CommonName cert \<or> hostname \<in> set (DNSNames cert))
   \<and> isHostnameInCert example_cert ''example.com''
   \<and> isHostnameInCert example_cert ''www.example.com''
   \<and> \<not> isHostnameInCert example_cert ''mail.example.org''
   \<and> \<not> isHostnameInCert example_cert ''api.www.example.com''
   \<and> \<not> isHostnameInCert example_cert ''Example.com''"
  by (auto simp: isHostnameInCert_def isHostnameInCert_loop_iff example_cert_def)







lemma show_int_443: "show_int 443 = ''443''"
  by (simp add: show_int_def show_nat.simps)




section \<open>Results on the OCSP status check\<close>

lemma GetOCSPResp_no_server:
  "x509_OCSPServer (checker_Certificate chk) = [] \<Longrightarrow>
   GetOCSPResp w chk = (Inl (errors_New ''no OCSP server specified in cert''), [])"
  by (simp add: GetOCSPResp_def)

lemma GetOCSPResp_posted:
  "snd (GetOCSPResp w chk) = [] \<or>
   snd (GetOCSPResp w chk) = [x509_OCSPServer (checker_Certificate chk) ! 0]"
  by (simp add: GetOCSPResp_def Let_def split: sum.splits option.splits)

lemma CheckOCSPStatus_posted: "snd (CheckOCSPStatus w chk) = snd (GetOCSPResp w chk)"
  by (simp add: CheckOCSPStatus_def split: prod.splits sum.splits)

lemma CheckOCSPStatus_parsed:
  "fst (GetOCSPResp w chk) = Inr resp \<Longrightarrow>
   fst (CheckOCSPStatus w chk) =
     (if Status resp \<noteq> ocsp_Good then Some (errors_New ''invalid OCSP status'') else None)"
  by (auto simp: CheckOCSPStatus_def split: prod.splits sum.splits)

lemma CheckOCSPStatus_failed:
  "fst (GetOCSPResp w chk) = Inl err \<Longrightarrow> fst (CheckOCSPStatus w chk) = Some err"
  by (auto simp: CheckOCSPStatus_def split: prod.splits sum.splits)

lemma GetOCSPResp_sent:
  assumes "x509_OCSPServer (checker_Certificate chk) \<noteq> []"
    and "CreateRequest w (checker_Certificate chk) (checker_Issuer chk) = Inr req"
  shows "snd (GetOCSPResp w chk) = [x509_OCSPServer (checker_Certificate chk) ! 0]"
  using assms by (simp add: GetOCSPResp_def Let_def split: sum.splits option.splits)

lemma GetOCSPResp_obtained:
  assumes "fst (GetOCSPResp w chk) = Inr resp"
  shows "snd (GetOCSPResp w chk) = [x509_OCSPServer (checker_Certificate chk) ! 0]
     \<and> (\<exists>req httpResp body r0.
          CreateRequest w (checker_Certificate chk) (checker_Issuer chk) = Inr req
          \<and> http_Post w (x509_OCSPServer (checker_Certificate chk) ! 0)
                ''application/ocsp-request'' req = Inr httpResp
          \<and> Body httpResp = Inr body
          \<and> ParseResponse w body (checker_Issuer chk) = Inr r0
          \<and> (case resp_Certificate r0 of
                None \<Rightarrow> resp = r0
              | Some c \<Rightarrow> ParseResponse w body c = Inr resp))"
  using assms
  by (auto simp: GetOCSPResp_def Let_def split: if_splits sum.splits option.splits)

text \<open>
  Claim C9. CheckOCSPStatus fails with the error "no OCSP server specified in cert",
  without any request, when the leaf lists no OCSP responder. When the leaf lists a
  responder and the request is built, the request is posted, once, to the first
  responder URL of the leaf with the content type application/ocsp-request, and to no
  other URL: a failure of that post, of reading the body or of parsing it is returned
  as it is, with nothing posted elsewhere. When the response is parsed (against the
  issuer, and again against the certificate the response embeds when it embeds one),
  CheckOCSPStatus fails with "invalid OCSP status" exactly when the status of the parsed
  response is not Good and returns nil exactly when it is Good. A response is obtained
  only in this way: from a post to the first URL.
\<close>

theorem CheckOCSPStatus_outcomes:
  "(x509_OCSPServer (checker_Certificate chk) = [] \<longrightarrow>
      CheckOCSPStatus w chk = (Some (errors_New ''no OCSP server specified in cert''), []))
   \<and> (fst (GetOCSPResp w chk) = Inr resp \<longrightarrow>
        (fst (CheckOCSPStatus w chk) = Some (errors_New ''invalid OCSP status'')
           \<longleftrightarrow> Status resp \<noteq> ocsp_Good)
        \<and> (fst (CheckOCSPStatus w chk) = None \<longleftrightarrow> Status resp = ocsp_Good))
   \<and> (fst (GetOCSPResp w chk) = Inl err \<longrightarrow> fst (CheckOCSPStatus w chk) = Some err)
   \<and> (snd (CheckOCSPStatus w chk) = []
        \<or> snd (CheckOCSPStatus w chk) = [x509_OCSPServer (checker_Certificate chk) ! 0])
   \<and> (x509_OCSPServer (checker_Certificate chk) \<noteq> []
        \<and> CreateRequest w (checker_Certificate chk) (checker_Issuer chk) = Inl e1 \<longrightarrow>
        CheckOCSPStatus w chk = (Some e1, []))
   \<and> (x509_OCSPServer (checker_Certificate chk) \<noteq> []
        \<and> CreateRequest w (checker_Certificate chk) (checker_Issuer chk) = Inr req \<longrightarrow>
        snd (CheckOCSPStatus w chk) = [x509_OCSPServer (checker_Certificate chk) ! 0]
        \<and> (http_Post w (x509_OCSPServer (checker_Certificate chk) ! 0)
              ''application/ocsp-request'' req = Inl e2 \<longrightarrow>
             CheckOCSPStatus w chk =
               (Some e2, [x509_OCSPServer (checker_Certificate chk) ! 0]))
        \<and> (http_Post w (x509_OCSPServer (checker_Certificate chk) ! 0)
              ''application/ocsp-request'' req = Inr httpResp \<longrightarrow>
             (Body httpResp = Inl e3 \<longrightarrow>
                CheckOCSPStatus w chk =
                  (Some e3, [x509_OCSPServer (checker_Certificate chk) ! 0]))
             \<and> (Body httpResp = Inr body \<longrightarrow>
                  (ParseResponse w body (checker_Issuer chk) = Inl e4 \<longrightarrow>
                     CheckOCSPStatus w chk =
                       (Some e4, [x509_OCSPServer (checker_Certificate chk) ! 0]))
                  \<and> (ParseResponse w body (checker_Issuer chk) = Inr r0 \<longrightarrow>
                       (resp_Certificate r0 = None \<longrightarrow>
                          CheckOCSPStatus w chk =
                            (if Status r0 \<noteq> ocsp_Good
                             then Some (errors_New ''invalid OCSP status'') else None,
                             [x509_OCSPServer (checker_Certificate chk) ! 0]))
                       \<and> (resp_Certificate r0 = Some c \<longrightarrow>
                            (ParseResponse w body c = Inl e5 \<longrightarrow>
                               CheckOCSPStatus w chk =
                                 (Some e5, [x509_OCSPServer (checker_Certificate chk) ! 0]))
                            \<and> (ParseResponse w body c = Inr r1 \<longrightarrow>
                                 CheckOCSPStatus w chk =
                                   (if Status r1 \<noteq> ocsp_Good
                                    then Some (errors_New ''invalid OCSP status'') else None,
                                    [x509_OCSPServer (checker_Certificate chk) ! 0])))))))
   \<and> (fst (GetOCSPResp w chk) = Inr resp \<longrightarrow>
        snd (CheckOCSPStatus w chk) = [x509_OCSPServer (checker_Certificate chk) ! 0]
        \<and> (\<exists>req httpResp body r0.
              CreateRequest w (checker_Certificate chk) (checker_Issuer chk) = Inr req
              \<and> http_Post w (x509_OCSPServer (checker_Certificate chk) ! 0)
                    ''application/ocsp-request'' req = Inr httpResp
              \<and> Body httpResp = Inr body
              \<and> ParseResponse w body (checker_Issuer chk) = Inr r0
              \<and> (case resp_Certificate r0 of
                    None \<Rightarrow> resp = r0
                  | Some c \<Rightarrow> ParseResponse w body c = Inr resp)))"
proof -
  note defs = CheckOCSPStatus_def GetOCSPResp_def Let_def
  have A: "x509_OCSPServer (checker_Certificate chk) = [] \<longrightarrow>
      CheckOCSPStatus w chk = (Some (errors_New ''no OCSP server specified in cert''), [])"
    by (simp add: CheckOCSPStatus_def GetOCSPResp_no_server)
  have B: "fst (GetOCSPResp w chk) = Inr resp \<longrightarrow>
        (fst (CheckOCSPStatus w chk) = Some (errors_New ''invalid OCSP status'')
           \<longleftrightarrow> Status resp \<noteq> ocsp_Good)
        \<and> (fst (CheckOCSPStatus w chk) = None \<longleftrightarrow> Status resp = ocsp_Good)"
    by (simp add: CheckOCSPStatus_parsed)
  have C: "fst (GetOCSPResp w chk) = Inl err \<longrightarrow> fst (CheckOCSPStatus w chk) = Some err"
    by (simp add: CheckOCSPStatus_failed)
  have D: "snd (CheckOCSPStatus w chk) = []
        \<or> snd (CheckOCSPStatus w chk) = [x509_OCSPServer (checker_Certificate chk) ! 0]"
    using GetOCSPResp_posted [of w chk] by (simp add: CheckOCSPStatus_posted)
  have E: "x509_OCSPServer (checker_Certificate chk) \<noteq> []
        \<and> CreateRequest w (checker_Certificate chk) (checker_Issuer chk) = Inl e1 \<longrightarrow>
        CheckOCSPStatus w chk = (Some e1, [])"
    by (simp add: defs)
  have F: "x509_OCSPServer (checker_Certificate chk) \<noteq> []
        \<and> CreateRequest w (checker_Certificate chk) (checker_Issuer chk) = Inr req \<longrightarrow>
        snd (CheckOCSPStatus w chk) = [x509_OCSPServer (checker_Certificate chk) ! 0]
        \<and> (http_Post w (x509_OCSPServer (checker_Certificate chk) ! 0)
              ''application/ocsp-request'' req = Inl e2 \<longrightarrow>
             CheckOCSPStatus w chk =
               (Some e2, [x509_OCSPServer (checker_Certificate chk) ! 0]))
        \<and> (http_Post w (x509_OCSPServer (checker_Certificate chk) ! 0)
              ''application/ocsp-request'' req = Inr httpResp \<longrightarrow>
             (Body httpResp = Inl e3 \<longrightarrow>
                CheckOCSPStatus w chk =
                  (Some e3, [x509_OCSPServer (checker_Certificate chk) ! 0]))
             \<and> (Body httpResp = Inr body \<longrightarrow>
                  (ParseResponse w body (checker_Issuer chk) = Inl e4 \<longrightarrow>
                     CheckOCSPStatus w chk =
                       (Some e4, [x509_OCSPServer (checker_Certificate chk) ! 0]))
                  \<and> (ParseResponse w body (checker_Issuer chk) = Inr r0 \<longrightarrow>
                       (resp_Certificate r0 = None \<longrightarrow>
                          CheckOCSPStatus w chk =
                            (if Status r0 \<noteq> ocsp_Good
                             then Some (errors_New ''invalid OCSP status'') else None,
                             [x509_OCSPServer (checker_Certificate chk) ! 0]))
                       \<and> (resp_Certificate r0 = Some c \<longrightarrow>
                            (ParseResponse w body c = Inl e5 \<longrightarrow>
                               CheckOCSPStatus w chk =
                                 (Some e5, [x509_OCSPServer (checker_Certificate chk) ! 0]))
                            \<and> (ParseResponse w body c = Inr r1 \<longrightarrow>
                                 CheckOCSPStatus w chk =
                                   (if Status r1 \<noteq> ocsp_Good
                                    then Some (errors_New ''invalid OCSP status'') else None,
                                    [x509_OCSPServer (checker_Certificate chk) ! 0]))))))"
  proof (intro impI, elim conjE)
    assume srv: "x509_OCSPServer (checker_Certificate chk) \<noteq> []"
      and req: "CreateRequest w (checker_Certificate chk) (checker_Issuer chk) = Inr req"
    have "snd (CheckOCSPStatus w chk) = [x509_OCSPServer (checker_Certificate chk) ! 0]"
      using GetOCSPResp_sent [OF srv req] by (simp add: CheckOCSPStatus_posted)
    moreover have "CheckOCSPStatus w chk = (Some e2, [x509_OCSPServer (checker_Certificate chk) ! 0])"
      if "http_Post w (x509_OCSPServer (checker_Certificate chk) ! 0)
            ''application/ocsp-request'' req = Inl e2"
      using srv req that by (simp add: defs)
    moreover have "CheckOCSPStatus w chk = (Some e3, [x509_OCSPServer (checker_Certificate chk) ! 0])"
      if "http_Post w (x509_OCSPServer (checker_Certificate chk) ! 0)
            ''application/ocsp-request'' req = Inr httpResp" "Body httpResp = Inl e3"
      using srv req that by (simp add: defs)
    moreover have "CheckOCSPStatus w chk = (Some e4, [x509_OCSPServer (checker_Certificate chk) ! 0])"
      if "http_Post w (x509_OCSPServer (checker_Certificate chk) ! 0)
            ''application/ocsp-request'' req = Inr httpResp" "Body httpResp = Inr body"
        "ParseResponse w body (checker_Issuer chk) = Inl e4"
      using srv req that by (simp add: defs)
    moreover have "CheckOCSPStatus w chk =
        (if Status r0 \<noteq> ocsp_Good then Some (errors_New ''invalid OCSP status'') else None,
         [x509_OCSPServer (checker_Certificate chk) ! 0])"
      if "http_Post w (x509_OCSPServer (checker_Certificate chk) ! 0)
            ''application/ocsp-request'' req = Inr httpResp" "Body httpResp = Inr body"
        "ParseResponse w body (checker_Issuer chk) = Inr r0" "resp_Certificate r0 = None"
      using srv req that by (simp add: defs)
    moreover have "CheckOCSPStatus w chk = (Some e5, [x509_OCSPServer (checker_Certificate chk) ! 0])"
      if "http_Post w (x509_OCSPServer (checker_Certificate chk) ! 0)
            ''application/ocsp-request'' req = Inr httpResp" "Body httpResp = Inr body"
        "ParseResponse w body (checker_Issuer chk) = Inr r0" "resp_Certificate r0 = Some c"
        "ParseResponse w body c = Inl e5"
      using srv req that by (simp add: defs)
    moreover have "CheckOCSPStatus w chk =
        (if Status r1 \<noteq> ocsp_Good then Some (errors_New ''invalid OCSP status'') else None,
         [x509_OCSPServer (checker_Certificate chk) ! 0])"
      if "http_Post w (x509_OCSPServer (checker_Certificate chk) ! 0)
            ''application/ocsp-request'' req = Inr httpResp" "Body httpResp = Inr body"
        "ParseResponse w body (checker_Issuer chk) = Inr r0" "resp_Certificate r0 = Some c"
        "ParseResponse w body c = Inr r1"
      using srv req that by (simp add: defs)
    ultimately show "snd (CheckOCSPStatus w chk) = [x509_OCSPServer (checker_Certificate chk) ! 0]
        \<and> (http_Post w (x509_OCSPServer (checker_Certificate chk) ! 0)
              ''application/ocsp-request'' req = Inl e2 \<longrightarrow>
             CheckOCSPStatus w chk =
               (Some e2, [x509_OCSPServer (checker_Certificate chk) ! 0]))
        \<and> (http_Post w (x509_OCSPServer (checker_Certificate chk) ! 0)
              ''application/ocsp-request'' req = Inr httpResp \<longrightarrow>
             (Body httpResp = Inl e3 \<longrightarrow>
                CheckOCSPStatus w chk =
                  (Some e3, [x509_OCSPServer (checker_Certificate chk) ! 0]))
             \<and> (Body httpResp = Inr body \<longrightarrow>
                  (ParseResponse w body (checker_Issuer chk) = Inl e4 \<longrightarrow>
                     CheckOCSPStatus w chk =
                       (Some e4, [x509_OCSPServer (checker_Certificate chk) ! 0]))
                  \<and> (ParseResponse w body (checker_Issuer chk) = Inr r0 \<longrightarrow>
                       (resp_Certificate r0 = None \<longrightarrow>
                          CheckOCSPStatus w chk =
                            (if Status r0 \<noteq> ocsp_Good
                             then Some (errors_New ''invalid OCSP status'') else None,
                             [x509_OCSPServer (checker_Certificate chk) ! 0]))
                       \<and> (resp_Certificate r0 = Some c \<longrightarrow>
                            (ParseResponse w body c = Inl e5 \<longrightarrow>
                               CheckOCSPStatus w chk =
                                 (Some e5, [x509_OCSPServer (checker_Certificate chk) ! 0]))
                            \<and> (ParseResponse w body c = Inr r1 \<longrightarrow>
                                 CheckOCSPStatus w chk =
                                   (if Status r1 \<noteq> ocsp_Good
                                    then Some (errors_New ''invalid OCSP status'') else None,
                                    [x509_OCSPServer (checker_Certificate chk) ! 0]))))))"
      by (intro conjI impI) assumption+
  qed
  have G: "fst (GetOCSPResp w chk) = Inr resp \<longrightarrow>
        snd (CheckOCSPStatus w chk) = [x509_OCSPServer (checker_Certificate chk) ! 0]
        \<and> (\<exists>req httpResp body r0.
              CreateRequest w (checker_Certificate chk) (checker_Issuer chk) = Inr req
              \<and> http_Post w (x509_OCSPServer (checker_Certificate chk) ! 0)
                    ''application/ocsp-request'' req = Inr httpResp
              \<and> Body httpResp = Inr body
              \<and> ParseResponse w body (checker_Issuer chk) = Inr r0
              \<and> (case resp_Certificate r0 of
                    None \<Rightarrow> resp = r0
                  | Some c \<Rightarrow> ParseResponse w body c = Inr resp))"
    using GetOCSPResp_obtained [of w chk resp] by (simp add: CheckOCSPStatus_posted)
  from A B C D E F G show ?thesis by (intro conjI)
qed

lemma GetOCSPResp_example:
  "GetOCSPResp (example_ocsp_world st)
     \<lparr>checker_Certificate =
        example_cert\<lparr>x509_OCSPServer := [''http://ocsp.example.com'', ''http://backup.example.com'']\<rparr>,
      checker_Issuer = example_cert\<rparr> =
   (Inr \<lparr>Status = st, resp_Certificate = None\<rparr>, [''http://ocsp.example.com''])"
  by (simp add: GetOCSPResp_def example_ocsp_world_def example_cert_def Let_def)

theorem CheckOCSPStatus_outcomes_witness:
  "CheckOCSPStatus (example_ocsp_world 1)
     \<lparr>checker_Certificate =
        example_cert\<lparr>x509_OCSPServer := [''http://ocsp.example.com'', ''http://backup.example.com'']\<rparr>,
      checker_Issuer = example_cert\<rparr> =
       (Some (errors_New ''invalid OCSP status''), [''http://ocsp.example.com''])
   \<and> CheckOCSPStatus (example_ocsp_world 0)
     \<lparr>checker_Certificate =
        example_cert\<lparr>x509_OCSPServer := [''http://ocsp.example.com'', ''http://backup.example.com'']\<rparr>,
      checker_Issuer = example_cert\<rparr> = (None, [''http://ocsp.example.com''])
   \<and> CheckOCSPStatus (example_ocsp_world 0)
     \<lparr>checker_Certificate =
        example_cert\<lparr>x509_OCSPServer := [''http://down.example.com'', ''http://ocsp.example.com'']\<rparr>,
      checker_Issuer = example_cert\<rparr> =
       (Some (lib_error ''no such host''), [''http://down.example.com''])
   \<and> CheckOCSPStatus (example_ocsp_world 0)
     \<lparr>checker_Certificate = example_cert\<lparr>x509_OCSPServer := []\<rparr>, checker_Issuer = example_cert\<rparr> =
       (Some (errors_New ''no OCSP server specified in cert''), [])
   \<and> fst (CheckOCSPStatus (example_ocsp_world 1)
     \<lparr>checker_Certificate =
        example_cert\<lparr>x509_OCSPServer := [''http://ocsp.example.com'', ''http://backup.example.com'']\<rparr>,
      checker_Issuer = example_cert\<rparr>) = Some (errors_New ''invalid OCSP status'')
   \<and> fst (CheckOCSPStatus (example_ocsp_world 0)
     \<lparr>checker_Certificate =
        example_cert\<lparr>x509_OCSPServer := [''http://ocsp.example.com'', ''http://backup.example.com'']\<rparr>,
      checker_Issuer = example_cert\<rparr>) = None"
proof -
  let ?chk = "\<lparr>checker_Certificate =
        example_cert\<lparr>x509_OCSPServer := [''http://ocsp.example.com'', ''http://backup.example.com'']\<rparr>,
      checker_Issuer = example_cert\<rparr>"
  let ?down = "\<lparr>checker_Certificate =
        example_cert\<lparr>x509_OCSPServer := [''http://down.example.com'', ''http://ocsp.example.com'']\<rparr>,
      checker_Issuer = example_cert\<rparr>"
  let ?none = "\<lparr>checker_Certificate = example_cert\<lparr>x509_OCSPServer := []\<rparr>, checker_Issuer = example_cert\<rparr>"
  have 1: "CheckOCSPStatus (example_ocsp_world 1) ?chk =
       (Some (errors_New ''invalid OCSP status''), [''http://ocsp.example.com''])"
    using CheckOCSPStatus_outcomes [where chk = ?chk and w = "example_ocsp_world 1"
        and req = "[1, 2, 3]" and httpResp = "\<lparr>Body = Inr [4, 5, 6]\<rparr>" and body = "[4, 5, 6]"
        and ?r0.0 = "\<lparr>Status = 1, resp_Certificate = None\<rparr>"]
    by (simp add: example_ocsp_world_def example_cert_def ocsp_Good_def)
  have 2: "CheckOCSPStatus (example_ocsp_world 0) ?chk = (None, [''http://ocsp.example.com''])"
    using CheckOCSPStatus_outcomes [where chk = ?chk and w = "example_ocsp_world 0"
        and req = "[1, 2, 3]" and httpResp = "\<lparr>Body = Inr [4, 5, 6]\<rparr>" and body = "[4, 5, 6]"
        and ?r0.0 = "\<lparr>Status = 0, resp_Certificate = None\<rparr>"]
    by (simp add: example_ocsp_world_def example_cert_def ocsp_Good_def)
  have 3: "CheckOCSPStatus (example_ocsp_world 0) ?down =
       (Some (lib_error ''no such host''), [''http://down.example.com''])"
    using CheckOCSPStatus_outcomes [where chk = ?down and w = "example_ocsp_world 0"
        and req = "[1, 2, 3]" and ?e2.0 = "lib_error ''no such host''"]
    by (simp add: example_ocsp_world_def example_cert_def)
  have 4: "CheckOCSPStatus (example_ocsp_world 0) ?none =
       (Some (errors_New ''no OCSP server specified in cert''), [])"
    using CheckOCSPStatus_outcomes [where chk = ?none and w = "example_ocsp_world 0"] by simp
  have 5: "fst (CheckOCSPStatus (example_ocsp_world 1) ?chk) = Some (errors_New ''invalid OCSP status'')"
    using CheckOCSPStatus_outcomes [where chk = ?chk and w = "example_ocsp_world 1"
        and resp = "\<lparr>Status = 1, resp_Certificate = None\<rparr>"]
    by (simp add: GetOCSPResp_example ocsp_Good_def)
  have 6: "fst (CheckOCSPStatus (example_ocsp_world 0) ?chk) = None"
    using CheckOCSPStatus_outcomes [where chk = ?chk and w = "example_ocsp_world 0"
        and resp = "\<lparr>Status = 0, resp_Certificate = None\<rparr>"]
    by (simp add: GetOCSPResp_example ocsp_Good_def)
  from 1 2 3 4 5 6 show ?thesis by (intro conjI)
qed

section \<open>Results on the rendering of a MultiError\<close>

lemma MultiError_Error_loop_eq:
  "\<forall>entry \<in> set visited. snd entry \<noteq> None \<Longrightarrow>
   MultiError_Error_loop visited errMsg =
     Inr (errMsg @ concat (map (\<lambda>(domain, err).
            ''Domain: '' @ domain @ '', Error: '' @ Error_of (the err) @ [newline]) visited))"
proof (induction visited arbitrary: errMsg)
  case Nil
  then show ?case by simp
next
  case (Cons entry visited)
  obtain domain err where entry: "entry = (domain, err)" by (cases entry)
  with Cons.prems obtain e where e: "err = Some e" by auto
  show ?case
    using Cons.prems by (simp add: entry e Cons.IH)
qed

lemma MultiError_Error_part_008_loop_eq:
  "MultiError_Error_part_008_loop visited errMsg =
     errMsg @ concat (map (\<lambda>(domain, err).
        ''Domain: '' @ domain @ [newline] @ ''Error: '' @
          (case err of Some e \<Rightarrow> Error_of e | None \<Rightarrow> ''<nil>'') @ [newline]) visited)"
proof (induction visited arbitrary: errMsg)
  case Nil
  then show ?case by simp
next
  case (Cons entry visited)
  obtain domain err where entry: "entry = (domain, err)" by (cases entry)
  show ?case
    by (cases err) (simp_all add: entry Cons.IH)
qed

lemma sublist_concat_map: "x \<in> set xs \<Longrightarrow> sublist (f x) (pre @ concat (map f xs))"
proof -
  assume "x \<in> set xs"
  then obtain ys zs where "xs = ys @ x # zs" by (auto dest: split_list)
  then have "pre @ concat (map f xs) = (pre @ concat (map f ys)) @ f x @ concat (map f zs)" by simp
  then show ?thesis unfolding sublist_def by blast
qed

lemma sublist_mid: "sublist x (a @ x @ b)"
  unfolding sublist_def by blast

text \<open>
  Claim C7, as amended. The rendering starts with the line "Multiple errors occurred:" and
  continues with one piece per entry, in the order in which the \<open>range\<close> loop visits the
  map. In errorHandler.go (for entries whose error is not nil) the piece is
  \<open>Domain: identifier, Error: message\<close> and a newline; in the second version of the file
  it is the two lines \<open>Domain: identifier\<close> and \<open>Error: message\<close>, with \<open><nil>\<close> for a nil
  error. In both, the output contains the piece of every entry, and with it the
  identifier and the message text verbatim.
\<close>

theorem MultiError_Error_renders_entries:
  "((\<forall>entry \<in> set visited. snd entry \<noteq> None) \<longrightarrow>
      (\<exists>out. MultiError_Error visited = Inr out
         \<and> out = ''Multiple errors occurred:'' @ [newline] @
                 concat (map (\<lambda>(domain, err).
                   ''Domain: '' @ domain @ '', Error: '' @ Error_of (the err) @ [newline]) visited)
         \<and> (\<forall>(domain, err) \<in> set visited.
               sublist (''Domain: '' @ domain @ '', Error: '' @ Error_of (the err) @ [newline]) out
               \<and> sublist domain out \<and> sublist (Error_of (the err)) out)))
   \<and> MultiError_Error_part_008 visited =
        ''Multiple errors occurred:'' @ [newline] @
        concat (map (\<lambda>(domain, err).
          ''Domain: '' @ domain @ [newline] @ ''Error: '' @
            (case err of Some e \<Rightarrow> Error_of e | None \<Rightarrow> ''<nil>'') @ [newline]) visited)
   \<and> (\<forall>(domain, err) \<in> set visited.
         sublist (''Domain: '' @ domain @ [newline] @ ''Error: '' @
                    (case err of Some e \<Rightarrow> Error_of e | None \<Rightarrow> ''<nil>'') @ [newline])
                 (MultiError_Error_part_008 visited)
         \<and> sublist domain (MultiError_Error_part_008 visited)
         \<and> sublist (case err of Some e \<Rightarrow> Error_of e | None \<Rightarrow> ''<nil>'')
                    (MultiError_Error_part_008 visited))"
proof (intro conjI impI)
  let ?line = "\<lambda>(domain, err). ''Domain: '' @ domain @ '', Error: '' @ Error_of (the err) @ [newline]"
  let ?out = "''Multiple errors occurred:'' @ [newline] @ concat (map ?line visited)"
  assume nonnil: "\<forall>entry \<in> set visited. snd entry \<noteq> None"
  have ret: "MultiError_Error visited = Inr ?out"
    using MultiError_Error_loop_eq [OF nonnil] by (simp add: MultiError_Error_def)
  have "sublist (?line (domain, err)) ?out \<and> sublist domain ?out \<and> sublist (Error_of (the err)) ?out"
    if "(domain, err) \<in> set visited" for domain err
  proof -
    have whole: "sublist (?line (domain, err)) ?out"
      using sublist_concat_map [OF that, of ?line "''Multiple errors occurred:'' @ [newline]"] by simp
    have "sublist domain (?line (domain, err))"
      using sublist_mid [of domain "''Domain: ''"] by simp
    moreover have "sublist (Error_of (the err)) (?line (domain, err))"
      using sublist_mid [of "Error_of (the err)" "''Domain: '' @ domain @ '', Error: ''" "[newline]"] by simp
    ultimately show ?thesis using whole by (blast intro: sublist_order.order_trans)
  qed
  with ret show "\<exists>out. MultiError_Error visited = Inr out
         \<and> out = ''Multiple errors occurred:'' @ [newline] @ concat (map ?line visited)
         \<and> (\<forall>(domain, err) \<in> set visited.
               sublist (''Domain: '' @ domain @ '', Error: '' @ Error_of (the err) @ [newline]) out
               \<and> sublist domain out \<and> sublist (Error_of (the err)) out)"
    by auto
next
  show "MultiError_Error_part_008 visited =
        ''Multiple errors occurred:'' @ [newline] @
        concat (map (\<lambda>(domain, err).
          ''Domain: '' @ domain @ [newline] @ ''Error: '' @
            (case err of Some e \<Rightarrow> Error_of e | None \<Rightarrow> ''<nil>'') @ [newline]) visited)"
    by (simp add: MultiError_Error_part_008_def MultiError_Error_part_008_loop_eq)
next
  let ?msg = "\<lambda>err. case err of Some e \<Rightarrow> Error_of e | None \<Rightarrow> ''<nil>''"
  let ?line = "\<lambda>(domain, err). ''Domain: '' @ domain @ [newline] @ ''Error: '' @ ?msg err @ [newline]"
  let ?out = "''Multiple errors occurred:'' @ [newline] @ concat (map ?line visited)"
  have out: "MultiError_Error_part_008 visited = ?out"
    by (simp add: MultiError_Error_part_008_def MultiError_Error_part_008_loop_eq)
  have "sublist (?line (domain, err)) ?out \<and> sublist domain ?out \<and> sublist (?msg err) ?out"
    if "(domain, err) \<in> set visited" for domain err
  proof -
    have whole: "sublist (?line (domain, err)) ?out"
      using sublist_concat_map [OF that, of ?line "''Multiple errors occurred:'' @ [newline]"] by simp
    have "sublist domain (?line (domain, err))"
      using sublist_mid [of domain "''Domain: ''"] by simp
    moreover have "sublist (?msg err) (?line (domain, err))"
      using sublist_mid [of "?msg err" "''Domain: '' @ domain @ [newline] @ ''Error: ''" "[newline]"] by simp
    ultimately show ?thesis using whole by (blast intro: sublist_order.order_trans)
  qed
  then show "\<forall>(domain, err) \<in> set visited.
         sublist (''Domain: '' @ domain @ [newline] @ ''Error: '' @ ?msg err @ [newline])
                 (MultiError_Error_part_008 visited)
         \<and> sublist domain (MultiError_Error_part_008 visited)
         \<and> sublist (?msg err) (MultiError_Error_part_008 visited)"
    unfolding out by auto
qed

lemma MultiError_Error_example:
  "MultiError_Error [(''example.com'', Some (errors_New ''connection failed''))] =
     Inr (''Multiple errors occurred:'' @ [newline] @
          ''Domain: example.com, Error: connection failed'' @ [newline])"
  by (simp add: MultiError_Error_def)

lemma MultiError_Error_nil_entry:
  "MultiError_Error [(''example.com'', None)] = Inl NilDereference"
  by (simp add: MultiError_Error_def)

theorem MultiError_Error_renders_entries_witness:
  "MultiError_Error [(''example.com'', Some (errors_New ''connection failed''))] =
     Inr (''Multiple errors occurred:'' @ [newline] @
          ''Domain: example.com, Error: connection failed'' @ [newline])
   \<and> MultiError_Error_part_008 [(''example.com'', Some (errors_New ''connection failed'')), (''google.com'', None)] =
       ''Multiple errors occurred:'' @ [newline] @
       ''Domain: example.com'' @ [newline] @ ''Error: connection failed'' @ [newline] @
       ''Domain: google.com'' @ [newline] @ ''Error: <nil>'' @ [newline]"
proof -
  have 1: "MultiError_Error [(''example.com'', Some (errors_New ''connection failed''))] =
     Inr (''Multiple errors occurred:'' @ [newline] @
          ''Domain: example.com, Error: connection failed'' @ [newline])"
    using MultiError_Error_renders_entries [of "[(''example.com'', Some (errors_New ''connection failed''))]"]
    by simp
  have 2: "MultiError_Error_part_008 [(''example.com'', Some (errors_New ''connection failed'')), (''google.com'', None)] =
       ''Multiple errors occurred:'' @ [newline] @
       ''Domain: example.com'' @ [newline] @ ''Error: connection failed'' @ [newline] @
       ''Domain: google.com'' @ [newline] @ ''Error: <nil>'' @ [newline]"
    using MultiError_Error_renders_entries
      [of "[(''example.com'', Some (errors_New ''connection failed'')), (''google.com'', None)]"]
    by simp
  from 1 2 show ?thesis by blast
qed

text \<open>
  Claim C7 as stated fails on the form of the line: for the single entry example.com with
  the message "connection failed", neither version of the rendering contains
  \<open>example.com -> connection failed\<close>.
\<close>

theorem MultiError_Error_no_arrow_form:
  "MultiError_Error [(''example.com'', Some (errors_New ''connection failed''))] =
     Inr (''Multiple errors occurred:'' @ [newline] @
          ''Domain: example.com, Error: connection failed'' @ [newline])
   \<and> \<not> sublist ''example.com -> connection failed''
         (''Multiple errors occurred:'' @ [newline] @
          ''Domain: example.com, Error: connection failed'' @ [newline])
   \<and> \<not> sublist ''example.com -> connection failed''
         (MultiError_Error_part_008 [(''example.com'', Some (errors_New ''connection failed''))])"
  by code_simp

section \<open>Results on the concurrent scan\<close>

lemma sched_step_invariant:
  assumes "sched_step env concurrency s s'"
  shows "successes (pending env s') + mset (results s') = successes (pending env s) + mset (results s)"
    and "failures (pending env s') + mset (errorChan s') = failures (pending env s) + mset (errorChan s)"
  using assms
  by (induction rule: sched_step.induct)
    (simp_all add: pending_def successes_def failures_def probe_def)

lemma sched_steps_invariant:
  assumes "rtranclp (sched_step env concurrency) s s'"
  shows "successes (pending env s') + mset (results s') = successes (pending env s) + mset (results s)
       \<and> failures (pending env s') + mset (errorChan s') = failures (pending env s) + mset (errorChan s)"
  using assms
proof (induction rule: rtranclp_induct)
  case base
  then show ?case by simp
next
  case (step y z)
  then show ?case using sched_step_invariant [of env concurrency y z] by simp
qed

lemma pending_init: "pending env (sched_init websites) = mset (probe_results env websites)"
  by (simp add: pending_def sched_init_def probe_results_def)

lemma sched_init_channels: "results (sched_init websites) = []" "errorChan (sched_init websites) = []"
  by (simp_all add: sched_init_def)

lemma pending_done: "sched_done s \<Longrightarrow> pending env s = {#}"
  by (simp add: pending_def sched_done_def)

lemma sched_final:
  assumes "rtranclp (sched_step env concurrency) (sched_init websites) s" and "sched_done s"
  shows "mset (results s) = successes (mset (probe_results env websites))"
    and "mset (errorChan s) = failures (mset (probe_results env websites))"
  using sched_steps_invariant [OF assms(1)] pending_done [OF assms(2), of env]
  by (simp_all add: pending_init sched_init_channels successes_def failures_def)


lemma set_update_subset: "set (AList.update k v al) \<subseteq> insert (k, v) (set al)"
  by (induction al) auto

lemma collect_errors_foldl:
  "fst ` set (foldl (\<lambda>m (domain, e). AList.update domain (Some e) m) acc ch) =
     fst ` set acc \<union> fst ` set ch"
  "distinct (map fst acc) \<Longrightarrow>
     distinct (map fst (foldl (\<lambda>m (domain, e). AList.update domain (Some e) m) acc ch))"
  "set (foldl (\<lambda>m (domain, e). AList.update domain (Some e) m) acc ch) \<subseteq>
     set acc \<union> (\<lambda>(domain, e). (domain, Some e)) ` set ch"
proof (induction ch arbitrary: acc)
  case Nil
  {
    case 1 show ?case by simp
  next
    case 2 then show ?case by simp
  next
    case 3 show ?case by simp
  }
next
  case (Cons x ch)
  obtain domain e where x: "x = (domain, e)" by (cases x)
  {
    case 1
    show ?case by (auto simp: x Cons.IH(1) dom_update)
  next
    case 2
    then show ?case by (simp add: x Cons.IH(2) distinct_update)
  next
    case 3
    have "set (foldl (\<lambda>m (domain, e). AList.update domain (Some e) m) (AList.update domain (Some e) acc) ch)
        \<subseteq> set (AList.update domain (Some e) acc) \<union> (\<lambda>(domain, e). (domain, Some e)) ` set ch"
      by (rule Cons.IH(3))
    then show ?case using set_update_subset [of domain "Some e" acc] by (auto simp: x)
  }
qed

lemma collect_errors_keys: "fst ` set (collect_errors ch) = fst ` set ch"
  by (simp add: collect_errors_def collect_errors_foldl(1))

lemma collect_errors_distinct: "distinct (map fst (collect_errors ch))"
  by (simp add: collect_errors_def collect_errors_foldl(2))

lemma collect_errors_values:
  "(site, e) \<in> set (collect_errors ch) \<Longrightarrow> \<exists>e'. e = Some e' \<and> (site, e') \<in> set ch"
  using collect_errors_foldl(3) [of "[]" ch] by (auto simp: collect_errors_def)

lemma collect_errors_empty: "collect_errors ch = [] \<longleftrightarrow> ch = []"
  using collect_errors_keys [of ch] by (metis image_is_empty set_empty)

lemma sched_progress:
  assumes "1 \<le> concurrency" and "\<not> sched_done s"
  shows "\<exists>s'. sched_step env concurrency s s'"
proof (cases "released s")
  case (Cons x xs)
  obtain site certInfo err where x: "x = (site, certInfo, err)" by (cases x)
  show ?thesis
  proof (cases err)
    case None
    with Cons x have "released s = [] @ (site, certInfo, None) # xs" by simp
    then show ?thesis by (blast intro: sched_step.send_result)
  next
    case (Some e)
    with Cons x have "released s = [] @ (site, certInfo, Some e) # xs" by simp
    then show ?thesis by (blast intro: sched_step.send_error)
  qed
next
  case Nil
  show ?thesis
  proof (cases "running s")
    case (Cons t ts)
    obtain k site where t: "t = (k, site)" by (cases t)
    obtain certInfo err where "fetchFromDomain (env k) CertDetails_zero site = (certInfo, err)"
      by (cases "fetchFromDomain (env k) CertDetails_zero site")
    moreover from Cons t have "running s = [] @ (k, site) # ts" by simp
    ultimately show ?thesis by (blast intro: sched_step.release)
  next
    case running: Nil
    with Nil assms(2) obtain t ts where "waiting s = t # ts"
      by (cases "waiting s") (auto simp: sched_done_def)
    then have "waiting s = [] @ t # ts" by simp
    moreover have "int (length (running s)) < concurrency" using running assms(1) by simp
    ultimately show ?thesis by (blast intro: sched_step.acquire)
  qed
qed

lemma sched_step_decreases:
  "sched_step env concurrency s s' \<Longrightarrow>
   3 * length (waiting s') + 2 * length (running s') + length (released s')
     < 3 * length (waiting s) + 2 * length (running s) + length (released s)"
  by (induction rule: sched_step.induct) simp_all

lemma sched_step_wf: "wfP (\<lambda>s' s. sched_step env concurrency s s')"
  by (rule wfp_if_convertible_to_nat
      [where f = "\<lambda>s. 3 * length (waiting s) + 2 * length (running s) + length (released s)"])
    (rule sched_step_decreases)

lemma sched_reaches_done:
  assumes "1 \<le> concurrency"
  shows "\<exists>t. rtranclp (sched_step env concurrency) s t \<and> sched_done t"
proof (induction s rule: wfp_induct_rule [OF sched_step_wf [of env concurrency]])
  case (1 s)
  show ?case
  proof (cases "sched_done s")
    case True
    then show ?thesis by blast
  next
    case False
    then obtain s' where s': "sched_step env concurrency s s'"
      using sched_progress [OF assms] by blast
    then obtain t where "rtranclp (sched_step env concurrency) s' t" "sched_done t"
      using "1.IH" by blast
    with s' show ?thesis by (blast intro: converse_rtranclp_into_rtranclp)
  qed
qed

lemma set_failures:
  "set_mset (failures (mset P)) = {(site, e). \<exists>cd. (site, cd, Some e) \<in> set P}"
  by (force simp: failures_def)

lemma length_probe_results: "length (probe_results env websites) = length websites"
  by (simp add: probe_results_def)

lemma ScrapeTLS_return_contract:
  assumes reach: "rtranclp (sched_step env concurrency) (sched_init websites) s"
    and fin: "sched_done s"
  shows "\<exists>details err. ScrapeTLS_return s = (details, err)
     \<and> mset details = mset (map (\<lambda>x. fst (snd x))
                               (filter (\<lambda>x. snd (snd x) = None) (probe_results env websites)))
     \<and> ((\<forall>x \<in> set (probe_results env websites). snd (snd x) = None) \<longrightarrow>
          err = None \<and> length details = length websites)
     \<and> ((\<exists>x \<in> set (probe_results env websites). snd (snd x) \<noteq> None) \<longrightarrow>
          (\<exists>multiError. err = Some multiError \<and> distinct (map fst multiError)
             \<and> fst ` set multiError =
                 {site. \<exists>cd e. (site, cd, Some e) \<in> set (probe_results env websites)}
             \<and> (\<forall>(site, e) \<in> set multiError.
                   \<exists>cd e'. e = Some e' \<and> (site, cd, Some e') \<in> set (probe_results env websites))))
     \<and> (websites = [] \<longrightarrow> details = [] \<and> err = None)"
proof -
  let ?P = "probe_results env websites"
  let ?me = "collect_errors (errorChan s)"
  let ?err = "if length ?me > 0 then Some ?me else None"
  have ret: "ScrapeTLS_return s = (results s, ?err)"
    by (simp add: ScrapeTLS_return_def Let_def)
  have res: "mset (results s) = mset (map (\<lambda>x. fst (snd x)) (filter (\<lambda>x. snd (snd x) = None) ?P))"
    using sched_final(1) [OF reach fin] by (simp add: successes_def)
  have "set (errorChan s) = set_mset (failures (mset ?P))"
    using sched_final(2) [OF reach fin] by (metis set_mset_mset)
  then have errs: "set (errorChan s) = {(site, e). \<exists>cd. (site, cd, Some e) \<in> set ?P}"
    by (simp only: set_failures)
  have all_ok: "?err = None \<and> length (results s) = length websites"
    if ok: "\<forall>x \<in> set ?P. snd (snd x) = None"
  proof -
    have "\<not> (\<exists>site e cd. (site, cd, Some e) \<in> set ?P)"
    proof
      assume "\<exists>site e cd. (site, cd, Some e) \<in> set ?P"
      then obtain site e cd where "(site, cd, Some e) \<in> set ?P" by blast
      with ok have "snd (snd (site, cd, Some e)) = None" by blast
      then show False by simp
    qed
    with errs have "set (errorChan s) = {}" by auto
    then have "?me = []" by (simp add: collect_errors_empty)
    moreover have "filter (\<lambda>x. snd (snd x) = None) ?P = ?P" using ok by simp
    then have "length (results s) = length ?P"
      using res by (metis length_map size_mset)
    ultimately show ?thesis by (simp add: length_probe_results)
  qed
  have some_failed: "\<exists>multiError. ?err = Some multiError \<and> distinct (map fst multiError)
             \<and> fst ` set multiError = {site. \<exists>cd e. (site, cd, Some e) \<in> set ?P}
             \<and> (\<forall>(site, e) \<in> set multiError.
                   \<exists>cd e'. e = Some e' \<and> (site, cd, Some e') \<in> set ?P)"
    if bad: "\<exists>x \<in> set ?P. snd (snd x) \<noteq> None"
  proof -
    from bad obtain site cd e where "(site, cd, Some e) \<in> set ?P" by force
    with errs have "(site, e) \<in> set (errorChan s)" by blast
    then have "errorChan s \<noteq> []" by auto
    then have ne: "?me \<noteq> []" by (simp add: collect_errors_empty)
    have keys: "fst ` set ?me = {site. \<exists>cd e. (site, cd, Some e) \<in> set ?P}"
      unfolding collect_errors_keys errs by force
    have vals: "\<forall>(site, e) \<in> set ?me. \<exists>cd e'. e = Some e' \<and> (site, cd, Some e') \<in> set ?P"
    proof (intro ballI, clarify)
      fix site e assume "(site, e) \<in> set ?me"
      then obtain e' where "e = Some e'" "(site, e') \<in> set (errorChan s)"
        using collect_errors_values by blast
      with errs show "\<exists>cd e'. e = Some e' \<and> (site, cd, Some e') \<in> set ?P" by blast
    qed
    from ne keys vals collect_errors_distinct [of "errorChan s"] show ?thesis by simp
  qed
  have empty: "results s = [] \<and> ?err = None" if "websites = []"
  proof -
    from that have "?P = []" by (simp add: probe_results_def)
    with res all_ok show ?thesis by simp
  qed
  from ret res all_ok some_failed empty show ?thesis by blast
qed

lemma sched_zero_stuck:
  "rtranclp (sched_step env 0) (sched_init websites) s \<Longrightarrow> s = sched_init websites"
proof (induction rule: rtranclp_induct)
  case base
  show ?case by simp
next
  case (step y z)
  from step.hyps(2) show ?case
    unfolding step.IH by (cases rule: sched_step.cases) (simp_all add: sched_init_def)
qed

lemma ScrapeTLS_zero_concurrency:
  assumes "websites \<noteq> []"
  shows "\<not> ScrapeTLS env websites 0 out"
proof
  assume "ScrapeTLS env websites 0 out"
  then obtain s where "rtranclp (sched_step env 0) (sched_init websites) s" "sched_done s"
    by (cases rule: ScrapeTLS.cases) auto
  then have "sched_done (sched_init websites)" using sched_zero_stuck [of env websites s] by simp
  then have "length (enumerate 0 websites) = 0" by (simp add: sched_done_def sched_init_def)
  with assms show False by simp
qed

lemma sched_empty_stuck:
  "rtranclp (sched_step env concurrency) (sched_init []) s \<Longrightarrow> s = sched_init []"
proof (induction rule: rtranclp_induct)
  case base
  show ?case by simp
next
  case (step y z)
  from step.hyps(2) show ?case
    unfolding step.IH by (cases rule: sched_step.cases) (simp_all add: sched_init_def)
qed

lemma ScrapeTLS_empty:
  assumes "0 \<le> concurrency"
  shows "ScrapeTLS env [] concurrency out \<longleftrightarrow> out = Ok ([], None)"
proof
  assume "ScrapeTLS env [] concurrency out"
  then obtain s where "rtranclp (sched_step env concurrency) (sched_init []) s"
    "out = Ok (ScrapeTLS_return s)"
    using assms by (cases rule: ScrapeTLS.cases) auto
  then have "out = Ok (ScrapeTLS_return (sched_init []))"
    using sched_empty_stuck [of env concurrency s] by simp
  then show "out = Ok ([], None)"
    by (simp add: ScrapeTLS_return_def sched_init_def collect_errors_def)
next
  assume out: "out = Ok ([], None)"
  have "ScrapeTLS env [] concurrency (Ok (ScrapeTLS_return (sched_init [])))"
    using assms by (intro ScrapeTLS_returns) (simp_all add: sched_done_def sched_init_def)
  then show "ScrapeTLS env [] concurrency out"
    by (simp add: out ScrapeTLS_return_def sched_init_def collect_errors_def)
qed

text \<open>
  Claim C1. With a concurrency limit of at least 1 (the input domain of the
  orchestrator), for every list of websites and every behaviour of the network:
  every run of the scan is finite and cannot get stuck before all goroutines are done,
  so the call returns; and whatever the interleaving, the returned records are exactly
  the records of the probes that succeeded (as a multiset: one per successful target,
  in completion order). If every probe succeeded the error is nil and there is one
  record per website; if a probe failed the error is a MultiError whose keys are exactly
  the sites with a failed probe, each with an error its probe returned, and the records
  of the other targets are still returned. For an empty list the call returns no
  records and a nil error, also with a limit of 0 (lemma \<open>ScrapeTLS_empty\<close>). With a
  limit of 0 and a non-empty list no goroutine ever gets a token and the call has no
  outcome (lemma \<open>ScrapeTLS_zero_concurrency\<close>); a negative limit panics in \<open>make\<close>.
\<close>

theorem ScrapeTLS_contract:
  assumes "1 \<le> concurrency"
  shows "(\<exists>r. ScrapeTLS env websites concurrency (Ok r))
     \<and> wfP (\<lambda>s' s. sched_step env concurrency s s')
     \<and> (\<forall>s. \<not> sched_done s \<longrightarrow> (\<exists>s'. sched_step env concurrency s s'))
     \<and> (\<forall>out. ScrapeTLS env websites concurrency out \<longrightarrow>
          (\<exists>details err. out = Ok (details, err)
             \<and> mset details = mset (map (\<lambda>x. fst (snd x))
                 (filter (\<lambda>x. snd (snd x) = None) (probe_results env websites)))
             \<and> ((\<forall>x \<in> set (probe_results env websites). snd (snd x) = None) \<longrightarrow>
                  err = None \<and> length details = length websites)
             \<and> ((\<exists>x \<in> set (probe_results env websites). snd (snd x) \<noteq> None) \<longrightarrow>
                  (\<exists>multiError. err = Some multiError \<and> distinct (map fst multiError)
                     \<and> fst ` set multiError =
                         {site. \<exists>cd e. (site, cd, Some e) \<in> set (probe_results env websites)}
                     \<and> (\<forall>(site, e) \<in> set multiError.
                           \<exists>cd e'. e = Some e' \<and>
                             (site, cd, Some e') \<in> set (probe_results env websites))))
             \<and> (websites = [] \<longrightarrow> details = [] \<and> err = None)))"
proof (intro conjI allI impI)
  obtain t where "rtranclp (sched_step env concurrency) (sched_init websites) t" "sched_done t"
    using sched_reaches_done [OF assms] by blast
  then have "ScrapeTLS env websites concurrency (Ok (ScrapeTLS_return t))"
    using assms by (intro ScrapeTLS_returns) simp_all
  then show "\<exists>r. ScrapeTLS env websites concurrency (Ok r)" by blast
next
  show "wfP (\<lambda>s' s. sched_step env concurrency s s')" by (rule sched_step_wf)
next
  fix s assume "\<not> sched_done s"
  then show "\<exists>s'. sched_step env concurrency s s'" by (rule sched_progress [OF assms])
next
  fix out assume "ScrapeTLS env websites concurrency out"
  then obtain s where "rtranclp (sched_step env concurrency) (sched_init websites) s"
    "sched_done s" "out = Ok (ScrapeTLS_return s)"
    using assms by (cases rule: ScrapeTLS.cases) auto
  then show "\<exists>details err. out = Ok (details, err)
             \<and> mset details = mset (map (\<lambda>x. fst (snd x))
                 (filter (\<lambda>x. snd (snd x) = None) (probe_results env websites)))
             \<and> ((\<forall>x \<in> set (probe_results env websites). snd (snd x) = None) \<longrightarrow>
                  err = None \<and> length details = length websites)
             \<and> ((\<exists>x \<in> set (probe_results env websites). snd (snd x) \<noteq> None) \<longrightarrow>
                  (\<exists>multiError. err = Some multiError \<and> distinct (map fst multiError)
                     \<and> fst ` set multiError =
                         {site. \<exists>cd e. (site, cd, Some e) \<in> set (probe_results env websites)}
                     \<and> (\<forall>(site, e) \<in> set multiError.
                           \<exists>cd e'. e = Some e' \<and>
                             (site, cd, Some e') \<in> set (probe_results env websites))))
             \<and> (websites = [] \<longrightarrow> details = [] \<and> err = None)"
    using ScrapeTLS_return_contract [of env concurrency websites s] by simp
qed


lemma probe_results_example:
  "probe_results (\<lambda>k. example_world 150 None) [''example.com'', ''nonexistent1.example''] =
     [(''example.com'',
       \<lparr>Domain_str = ''example.com'', Serial = ''1234567890'', NotBefore = ''100'', NotAfter = ''200'',
        Issuer = ''CN=Test CA'', CRL = [], OCSPServer = [''http://ocsp.example.com''],
        CertChain = [example_cert], Valid = True, ValidationErrs = []\<rparr>, None),
      (''nonexistent1.example'', CertDetails_zero, Some (lib_error ''dial tcp: connection refused''))]"
  by (simp add: probe_results_def probe_def fetchFromDomain_def fetchFromDomainWithDialer_def
      example_world_def example_dialer_def CertDetails_zero_def Let_def show_int_def show_nat.simps
      example_cert_def)

theorem ScrapeTLS_contract_witness:
  "(\<exists>details multiError.
      ScrapeTLS (\<lambda>k. example_world 150 None) [''example.com'', ''nonexistent1.example''] 2
        (Ok (details, Some multiError))
      \<and> length details = 1 \<and> fst ` set multiError = {''nonexistent1.example''})
   \<and> ScrapeTLS (\<lambda>k. example_world 150 None) [] 2 (Ok ([], None))"
proof -
  let ?env = "\<lambda>k::nat. example_world 150 None"
  let ?ws = "[''example.com'', ''nonexistent1.example'']"
  have two: "(1::int) \<le> 2" by simp
  note c = ScrapeTLS_contract [OF two, of ?env ?ws]
  from c [THEN conjunct1] obtain r where r: "ScrapeTLS ?env ?ws 2 (Ok r)" ..
  from c [THEN conjunct2, THEN conjunct2, THEN conjunct2, THEN spec, THEN mp, OF r]
  obtain details err where d: "Ok r = Ok (details, err)"
    "mset details = mset (map (\<lambda>x. fst (snd x)) (filter (\<lambda>x. snd (snd x) = None) (probe_results ?env ?ws)))"
    "(\<exists>x \<in> set (probe_results ?env ?ws). snd (snd x) \<noteq> None) \<longrightarrow>
       (\<exists>multiError. err = Some multiError
          \<and> fst ` set multiError = {site. \<exists>cd e. (site, cd, Some e) \<in> set (probe_results ?env ?ws)})"
    by (elim exE conjE) (rule that, assumption, assumption, blast)
  have "size (mset details) = 1" by (simp only: d(2) probe_results_example) simp
  then have len: "length details = 1" by simp
  have "\<exists>x \<in> set (probe_results ?env ?ws). snd (snd x) \<noteq> None"
    by (simp add: probe_results_example)
  with d(3) obtain multiError where me: "err = Some multiError"
    "fst ` set multiError = {site. \<exists>cd e. (site, cd, Some e) \<in> set (probe_results ?env ?ws)}"
    by blast
  have "{site. \<exists>cd e. (site, cd, Some e) \<in> set (probe_results ?env ?ws)} = {''nonexistent1.example''}"
    by (auto simp: probe_results_example)
  with me have keys: "fst ` set multiError = {''nonexistent1.example''}" by simp
  have 1: "\<exists>details multiError. ScrapeTLS ?env ?ws 2 (Ok (details, Some multiError))
      \<and> length details = 1 \<and> fst ` set multiError = {''nonexistent1.example''}"
    using r d(1) me(1) len keys by auto
  note e = ScrapeTLS_contract [OF two, of ?env "[]"]
  from e [THEN conjunct1] obtain r' where r': "ScrapeTLS ?env [] 2 (Ok r')" ..
  from e [THEN conjunct2, THEN conjunct2, THEN conjunct2, THEN spec, THEN mp, OF r']
  have "Ok r' = Ok ([], None)" by (elim exE conjE) simp
  with r' have 2: "ScrapeTLS ?env [] 2 (Ok ([], None))" by simp
  from 1 2 show ?thesis by blast
qed

end
